theory Spec2Isabelle
  imports Main
begin

section \<open>Memory model\<close>

text \<open>
  The container of \<^verbatim>\<open>simple_vector.h\<close> works on raw memory obtained from
  \<^verbatim>\<open>new Type[n]\<close>. The heap is a list of cells indexed by address: \<^verbatim>\<open>new[]\<close>
  appends a live cell, so the address it returns is never one handed out before, and
  \<^verbatim>\<open>delete[]\<close> marks the cell as freed. A slot of a fresh block holds no value of
  the container's yet (\<open>Uninit\<close>); an assignment through a pointer makes it \<open>Obj v\<close>.
  Sizes are natural numbers: \<^verbatim>\<open>size_t\<close> arithmetic is taken without wrap-around,
  and \<^verbatim>\<open>new[]\<close> is taken to succeed.

  Every out-of-bounds access, use of a freed block, read of a slot that was never
  written, double \<^verbatim>\<open>delete[]\<close> and ill-formed pointer range is undefined behaviour in
  C++; the model reports it as the fault \<open>undefined_behaviour\<close>. The only exception the
  source throws itself is \<^verbatim>\<open>std::out_of_range\<close>.
\<close>

type_synonym addr = nat

datatype 'a slot = Uninit | Obj 'a

datatype 'a cell = Freed | Live "'a slot list"

type_synonym 'a heap = "'a cell list"

datatype fault = out_of_range | undefined_behaviour

text \<open>A \<^verbatim>\<open>Type*\<close>: the block it points into (\<open>None\<close> for \<^verbatim>\<open>nullptr\<close>) and the offset.\<close>

datatype ptr = Ptr (base: "addr option") (off: nat)

definition nullptr :: ptr where
  "nullptr = Ptr None 0"

definition ptr_add :: "ptr \<Rightarrow> nat \<Rightarrow> ptr" where
  "ptr_add p n = Ptr (base p) (off p + n)"

definition cell_at :: "'a heap \<Rightarrow> addr \<Rightarrow> 'a cell" where
  "cell_at h a = (if a < length h then h ! a else Freed)"

text \<open>\<^verbatim>\<open>new Type[n]\<close>\<close>

definition new_array :: "'a heap \<Rightarrow> nat \<Rightarrow> addr \<times> 'a heap" where
  "new_array h n = (length h, h @ [Live (replicate n Uninit)])"

text \<open>\<^verbatim>\<open>delete[] p\<close>; deleting \<^verbatim>\<open>nullptr\<close> does nothing.\<close>

definition delete_array :: "'a heap \<Rightarrow> addr option \<Rightarrow> fault + 'a heap" where
  "delete_array h p =
     (case p of
        None \<Rightarrow> Inr h
      | Some a \<Rightarrow>
          (case cell_at h a of
             Freed \<Rightarrow> Inl undefined_behaviour
           | Live b \<Rightarrow> Inr (h[a := Freed])))"

text \<open>Reading \<^verbatim>\<open>*p\<close> and assigning \<^verbatim>\<open>*p = v\<close>.\<close>

definition load :: "'a heap \<Rightarrow> ptr \<Rightarrow> fault + 'a" where
  "load h p =
     (case base p of
        None \<Rightarrow> Inl undefined_behaviour
      | Some a \<Rightarrow>
          (case cell_at h a of
             Freed \<Rightarrow> Inl undefined_behaviour
           | Live b \<Rightarrow>
               if off p < length b
               then (case b ! off p of Uninit \<Rightarrow> Inl undefined_behaviour | Obj v \<Rightarrow> Inr v)
               else Inl undefined_behaviour))"

definition store :: "'a heap \<Rightarrow> ptr \<Rightarrow> 'a \<Rightarrow> fault + 'a heap" where
  "store h p v =
     (case base p of
        None \<Rightarrow> Inl undefined_behaviour
      | Some a \<Rightarrow>
          (case cell_at h a of
             Freed \<Rightarrow> Inl undefined_behaviour
           | Live b \<Rightarrow>
               if off p < length b
               then Inr (h[a := Live (b[off p := Obj v])])
               else Inl undefined_behaviour))"


text \<open>
  A parameter of type \<^verbatim>\<open>const Type&\<close> or \<^verbatim>\<open>Type&&\<close>. The object it is bound to
  is either a slot of the heap, named by a pointer, or an object outside the blocks of
  the heap (a temporary, a variable of the caller), which no assignment through a
  pointer into a block changes and which is given by its value. The function reads the
  parameter where it uses it, in the heap of that moment.
\<close>

datatype 'a reference = Outside 'a | Inside ptr

definition deref :: "'a heap \<Rightarrow> 'a reference \<Rightarrow> fault + 'a" where
  "deref h r = (case r of Outside v \<Rightarrow> Inr v | Inside p \<Rightarrow> load h p)"


section \<open>The standard algorithms the container calls\<close>

text \<open>
  Each algorithm is the loop of its standard definition, run once per element of the
  range. A range from \<open>first\<close> up to, not including, \<open>lastp\<close> is well formed when
  both pointers are into the same block and \<open>first\<close> is not behind \<open>lastp\<close>. \<^verbatim>\<open>std::move\<close> on a range assigns
  element by element like \<^verbatim>\<open>std::copy\<close>; the value a moved-from element keeps is
  unspecified in C++, and the model leaves it as it was, which is what the move of a
  trivially copyable \<^verbatim>\<open>Type\<close> does.
\<close>

definition std_distance :: "ptr \<Rightarrow> ptr \<Rightarrow> fault + nat" where
  "std_distance first lastp =
     (if base first = base lastp \<and> off first \<le> off lastp
      then Inr (off lastp - off first) else Inl undefined_behaviour)"

text \<open>\<^verbatim>\<open>while (first != last) *d_first++ = *first++;\<close>\<close>

fun copy_loop :: "nat \<Rightarrow> 'a heap \<Rightarrow> ptr \<Rightarrow> ptr \<Rightarrow> fault + 'a heap" where
  "copy_loop 0 h first d_first = Inr h"
| "copy_loop (Suc n) h first d_first =
     (case load h first of
        Inl e \<Rightarrow> Inl e
      | Inr v \<Rightarrow>
          (case store h d_first v of
             Inl e \<Rightarrow> Inl e
           | Inr h' \<Rightarrow> copy_loop n h' (ptr_add first 1) (ptr_add d_first 1)))"

definition std_copy :: "'a heap \<Rightarrow> ptr \<Rightarrow> ptr \<Rightarrow> ptr \<Rightarrow> fault + 'a heap" where
  "std_copy h first lastp d_first =
     (case std_distance first lastp of
        Inl e \<Rightarrow> Inl e
      | Inr n \<Rightarrow> copy_loop n h first d_first)"

definition std_move :: "'a heap \<Rightarrow> ptr \<Rightarrow> ptr \<Rightarrow> ptr \<Rightarrow> fault + 'a heap" where
  "std_move h first lastp d_first = std_copy h first lastp d_first"

text \<open>\<^verbatim>\<open>while (first != last) *(--d_last) = *(--last);\<close>\<close>

fun copy_backward_loop :: "nat \<Rightarrow> 'a heap \<Rightarrow> ptr \<Rightarrow> ptr \<Rightarrow> fault + 'a heap" where
  "copy_backward_loop 0 h lastp d_lastp = Inr h"
| "copy_backward_loop (Suc n) h lastp d_lastp =
     (if off lastp = 0 \<or> off d_lastp = 0 then Inl undefined_behaviour
      else
        (case load h (Ptr (base lastp) (off lastp - 1)) of
           Inl e \<Rightarrow> Inl e
         | Inr v \<Rightarrow>
             (case store h (Ptr (base d_lastp) (off d_lastp - 1)) v of
                Inl e \<Rightarrow> Inl e
              | Inr h' \<Rightarrow>
                  copy_backward_loop n h' (Ptr (base lastp) (off lastp - 1))
                    (Ptr (base d_lastp) (off d_lastp - 1)))))"

definition std_copy_backward :: "'a heap \<Rightarrow> ptr \<Rightarrow> ptr \<Rightarrow> ptr \<Rightarrow> fault + 'a heap" where
  "std_copy_backward h first lastp d_lastp =
     (case std_distance first lastp of
        Inl e \<Rightarrow> Inl e
      | Inr n \<Rightarrow> copy_backward_loop n h lastp d_lastp)"

definition std_move_backward :: "'a heap \<Rightarrow> ptr \<Rightarrow> ptr \<Rightarrow> ptr \<Rightarrow> fault + 'a heap" where
  "std_move_backward h first lastp d_lastp = std_copy_backward h first lastp d_lastp"

text \<open>\<^verbatim>\<open>for (; first != last; ++first) *first = value;\<close>\<close>

fun fill_loop :: "nat \<Rightarrow> 'a heap \<Rightarrow> ptr \<Rightarrow> 'a \<Rightarrow> fault + 'a heap" where
  "fill_loop 0 h first v = Inr h"
| "fill_loop (Suc n) h first v =
     (case store h first v of
        Inl e \<Rightarrow> Inl e
      | Inr h' \<Rightarrow> fill_loop n h' (ptr_add first 1) v)"

definition std_fill :: "'a heap \<Rightarrow> ptr \<Rightarrow> ptr \<Rightarrow> 'a \<Rightarrow> fault + 'a heap" where
  "std_fill h first lastp v =
     (case std_distance first lastp of
        Inl e \<Rightarrow> Inl e
      | Inr n \<Rightarrow> fill_loop n h first v)"

text \<open>
  \<^verbatim>\<open>std::generate\<close> is only called with the generator \<^verbatim>\<open>[]() { return Type{}; }\<close>,
  which yields the same value at every call; the value is the argument \<open>g\<close>.
\<close>

definition std_generate :: "'a heap \<Rightarrow> ptr \<Rightarrow> ptr \<Rightarrow> 'a \<Rightarrow> fault + 'a heap" where
  "std_generate h first lastp g = std_fill h first lastp g"

text \<open>\<^verbatim>\<open>for (; first1 != last1; ++first1, ++first2) if (!(*first1 == *first2)) return false;\<close>\<close>

fun equal_loop :: "nat \<Rightarrow> 'a heap \<Rightarrow> ptr \<Rightarrow> ptr \<Rightarrow> fault + bool" where
  "equal_loop 0 h first1 first2 = Inr True"
| "equal_loop (Suc n) h first1 first2 =
     (case load h first1 of
        Inl e \<Rightarrow> Inl e
      | Inr x \<Rightarrow>
          (case load h first2 of
             Inl e \<Rightarrow> Inl e
           | Inr y \<Rightarrow>
               if x = y then equal_loop n h (ptr_add first1 1) (ptr_add first2 1)
               else Inr False))"

definition std_equal :: "'a heap \<Rightarrow> ptr \<Rightarrow> ptr \<Rightarrow> ptr \<Rightarrow> fault + bool" where
  "std_equal h first1 last1 first2 =
     (case std_distance first1 last1 of
        Inl e \<Rightarrow> Inl e
      | Inr n \<Rightarrow> equal_loop n h first1 first2)"

text \<open>
  \<^verbatim>\<open>std::lexicographical_compare\<close>: walk both ranges while neither is exhausted,
  the first pair ordered either way decides; otherwise the first range is smaller
  exactly when it ends first.
\<close>

fun lexicographical_loop ::
  "nat \<Rightarrow> nat \<Rightarrow> ('a::ord) heap \<Rightarrow> ptr \<Rightarrow> ptr \<Rightarrow> fault + bool" where
  "lexicographical_loop 0 n2 h first1 first2 = Inr (n2 \<noteq> 0)"
| "lexicographical_loop (Suc n1) 0 h first1 first2 = Inr False"
| "lexicographical_loop (Suc n1) (Suc n2) h first1 first2 =
     (case load h first1 of
        Inl e \<Rightarrow> Inl e
      | Inr x \<Rightarrow>
          (case load h first2 of
             Inl e \<Rightarrow> Inl e
           | Inr y \<Rightarrow>
               if x < y then Inr True
               else if y < x then Inr False
               else lexicographical_loop n1 n2 h (ptr_add first1 1) (ptr_add first2 1)))"

definition std_lexicographical_compare ::
  "('a::ord) heap \<Rightarrow> ptr \<Rightarrow> ptr \<Rightarrow> ptr \<Rightarrow> ptr \<Rightarrow> fault + bool" where
  "std_lexicographical_compare h first1 last1 first2 last2 =
     (case std_distance first1 last1 of
        Inl e \<Rightarrow> Inl e
      | Inr n1 \<Rightarrow>
          (case std_distance first2 last2 of
             Inl e \<Rightarrow> Inl e
           | Inr n2 \<Rightarrow> lexicographical_loop n1 n2 h first1 first2))"


section \<open>ArrayPtr\<close>

text \<open>
  The member \<^verbatim>\<open>raw_ptr_\<close> is either null or the pointer \<^verbatim>\<open>new[]\<close> returned, the
  start of a block; the field holds the block's address, and \<open>Get\<close> gives the
  pointer to the block's first slot.
\<close>

record ArrayPtr =
  raw_ptr :: "addr option"

text \<open>\<^verbatim>\<open>ArrayPtr() = default\<close>: the member initialiser \<^verbatim>\<open>raw_ptr_ = nullptr\<close>.\<close>

definition ArrayPtr_default :: ArrayPtr where
  "ArrayPtr_default = \<lparr>raw_ptr = None\<rparr>"

text \<open>\<^verbatim>\<open>explicit ArrayPtr(size_t size)\<close>\<close>

definition ArrayPtr_sized :: "'a heap \<Rightarrow> nat \<Rightarrow> ArrayPtr \<times> 'a heap" where
  "ArrayPtr_sized h n =
     (if n \<noteq> 0
      then (case new_array h n of (a, h') \<Rightarrow> (\<lparr>raw_ptr = Some a\<rparr>, h'))
      else (\<lparr>raw_ptr = None\<rparr>, h))"

text \<open>\<^verbatim>\<open>~ArrayPtr()\<close>\<close>

definition ArrayPtr_dtor :: "'a heap \<Rightarrow> ArrayPtr \<Rightarrow> fault + 'a heap" where
  "ArrayPtr_dtor h p = delete_array h (raw_ptr p)"

text \<open>
  \<^verbatim>\<open>ArrayPtr(ArrayPtr&&) = default\<close> and \<^verbatim>\<open>operator=(ArrayPtr&&) = default\<close>: the
  compiler-generated member-wise move. Moving a raw pointer member copies it, so the
  source object keeps its value. Both return the destination and the source afterwards;
  neither touches the heap.
\<close>

definition ArrayPtr_move_ctor :: "ArrayPtr \<Rightarrow> ArrayPtr \<times> ArrayPtr" where
  "ArrayPtr_move_ctor other = (\<lparr>raw_ptr = raw_ptr other\<rparr>, other)"

definition ArrayPtr_move_assign :: "ArrayPtr \<Rightarrow> ArrayPtr \<Rightarrow> ArrayPtr \<times> ArrayPtr" where
  "ArrayPtr_move_assign this other = (this\<lparr>raw_ptr := raw_ptr other\<rparr>, other)"

text \<open>\<^verbatim>\<open>Release()\<close>: the handle, and the object afterwards.\<close>

definition Release :: "ArrayPtr \<Rightarrow> addr option \<times> ArrayPtr" where
  "Release p = (raw_ptr p, p\<lparr>raw_ptr := None\<rparr>)"

definition Get :: "ArrayPtr \<Rightarrow> ptr" where
  "Get p = Ptr (raw_ptr p) 0"

text \<open>\<^verbatim>\<open>operator[]\<close>: the reference \<^verbatim>\<open>*(raw_ptr_ + index)\<close>.\<close>

definition ArrayPtr_index :: "ArrayPtr \<Rightarrow> nat \<Rightarrow> ptr" where
  "ArrayPtr_index p index = ptr_add (Get p) index"

definition ArrayPtr_bool :: "ArrayPtr \<Rightarrow> bool" where
  "ArrayPtr_bool p = (if raw_ptr p \<noteq> None then True else False)"

text \<open>\<^verbatim>\<open>swap(ArrayPtr& other)\<close>: this and other afterwards.\<close>

definition ArrayPtr_swap :: "ArrayPtr \<Rightarrow> ArrayPtr \<Rightarrow> ArrayPtr \<times> ArrayPtr" where
  "ArrayPtr_swap this other =
     (let tmp_ptr = raw_ptr other in
      case Release this of
        (r, this1) \<Rightarrow> (this1\<lparr>raw_ptr := tmp_ptr\<rparr>, other\<lparr>raw_ptr := r\<rparr>))"


section \<open>SimpleVector\<close>

record ReserveProxyObj =
  capacity_to_reserve :: nat

text \<open>The free function \<^verbatim>\<open>Reserve(size_t)\<close>, which only wraps its argument.\<close>

definition Reserve_proxy :: "nat \<Rightarrow> ReserveProxyObj" where
  "Reserve_proxy n = \<lparr>capacity_to_reserve = n\<rparr>"

record SimpleVector =
  items :: ArrayPtr
  size_v :: nat
  capacity :: nat

text \<open>\<^verbatim>\<open>SimpleVector() noexcept = default\<close>, from the member initialisers.\<close>

definition SimpleVector_default :: SimpleVector where
  "SimpleVector_default = \<lparr>items = ArrayPtr_default, size_v = 0, capacity = 0\<rparr>"

text \<open>The implicit destructor destroys the member \<^verbatim>\<open>items_\<close>.\<close>

definition SimpleVector_dtor :: "'a heap \<Rightarrow> SimpleVector \<Rightarrow> fault + 'a heap" where
  "SimpleVector_dtor h this = ArrayPtr_dtor h (items this)"

definition GetSize :: "SimpleVector \<Rightarrow> nat" where
  "GetSize this = size_v this"

definition GetCapacity :: "SimpleVector \<Rightarrow> nat" where
  "GetCapacity this = capacity this"

definition IsEmpty :: "SimpleVector \<Rightarrow> bool" where
  "IsEmpty this = (size_v this = 0)"

text \<open>\<^verbatim>\<open>begin()\<close>, \<^verbatim>\<open>end()\<close> and their const forms.\<close>

definition begin_v :: "SimpleVector \<Rightarrow> ptr" where
  "begin_v this = Get (items this)"

definition end_v :: "SimpleVector \<Rightarrow> ptr" where
  "end_v this = ptr_add (Get (items this)) (size_v this)"

definition cbegin :: "SimpleVector \<Rightarrow> ptr" where
  "cbegin this = Get (items this)"

definition cend :: "SimpleVector \<Rightarrow> ptr" where
  "cend this = ptr_add (Get (items this)) (size_v this)"

text \<open>\<^verbatim>\<open>swap(SimpleVector& other)\<close>: this and other afterwards.\<close>

definition SimpleVector_swap :: "SimpleVector \<Rightarrow> SimpleVector \<Rightarrow> SimpleVector \<times> SimpleVector" where
  "SimpleVector_swap this other =
     (case ArrayPtr_swap (items this) (items other) of
        (i1, i2) \<Rightarrow>
          (this\<lparr>items := i1, size_v := size_v other, capacity := capacity other\<rparr>,
           other\<lparr>items := i2, size_v := size_v this, capacity := capacity this\<rparr>))"

text \<open>
  \<^verbatim>\<open>Reserve(size_t new_capacity)\<close>. The local \<^verbatim>\<open>items_copy\<close> holds the old block
  after the swap and is destroyed when the branch is left.
\<close>

definition Reserve :: "'a heap \<Rightarrow> SimpleVector \<Rightarrow> nat \<Rightarrow> fault + (SimpleVector \<times> 'a heap)" where
  "Reserve h this new_capacity =
     (if new_capacity > capacity this then
        (case ArrayPtr_sized h new_capacity of
           (items_copy, h1) \<Rightarrow>
             (let begin_new = Get items_copy in
              case std_move h1 (begin_v this) (end_v this) begin_new of
                Inl e \<Rightarrow> Inl e
              | Inr h2 \<Rightarrow>
                  (case ArrayPtr_swap (items this) items_copy of
                     (items', items_copy') \<Rightarrow>
                       (case ArrayPtr_dtor h2 items_copy' of
                          Inl e \<Rightarrow> Inl e
                        | Inr h3 \<Rightarrow>
                            Inr (this\<lparr>items := items', capacity := new_capacity\<rparr>, h3)))))
      else Inr (this, h))"

text \<open>\<^verbatim>\<open>SimpleVector(ReserveProxyObj other)\<close>\<close>

definition SimpleVector_reserve ::
  "'a heap \<Rightarrow> ReserveProxyObj \<Rightarrow> fault + (SimpleVector \<times> 'a heap)" where
  "SimpleVector_reserve h other = Reserve h SimpleVector_default (capacity_to_reserve other)"

text \<open>
  \<^verbatim>\<open>explicit SimpleVector(size_t size)\<close>; \<open>dflt\<close> stands for the value \<^verbatim>\<open>Type{}\<close>
  here and below.
\<close>

definition SimpleVector_sized ::
  "'a heap \<Rightarrow> nat \<Rightarrow> 'a \<Rightarrow> fault + (SimpleVector \<times> 'a heap)" where
  "SimpleVector_sized h n dflt =
     (case ArrayPtr_sized h n of
        (its, h1) \<Rightarrow>
          (let this = \<lparr>items = its, size_v = n, capacity = n\<rparr> in
           case std_fill h1 (begin_v this) (end_v this) dflt of
             Inl e \<Rightarrow> Inl e
           | Inr h2 \<Rightarrow> Inr (this, h2)))"

text \<open>\<^verbatim>\<open>SimpleVector(size_t size, const Type& value)\<close>\<close>

definition SimpleVector_fill ::
  "'a heap \<Rightarrow> nat \<Rightarrow> 'a \<Rightarrow> fault + (SimpleVector \<times> 'a heap)" where
  "SimpleVector_fill h n v =
     (case ArrayPtr_sized h n of
        (its, h1) \<Rightarrow>
          (let this = \<lparr>items = its, size_v = n, capacity = n\<rparr> in
           case std_fill h1 (begin_v this) (end_v this) v of
             Inl e \<Rightarrow> Inl e
           | Inr h2 \<Rightarrow> Inr (this, h2)))"

text \<open>
  \<^verbatim>\<open>SimpleVector(std::initializer_list<Type> init)\<close>: the elements of the list are
  assigned into the block from \<^verbatim>\<open>begin()\<close> on, in order.
\<close>

fun assign_list :: "'a heap \<Rightarrow> ptr \<Rightarrow> 'a list \<Rightarrow> fault + 'a heap" where
  "assign_list h d_first [] = Inr h"
| "assign_list h d_first (x # xs) =
     (case store h d_first x of
        Inl e \<Rightarrow> Inl e
      | Inr h' \<Rightarrow> assign_list h' (ptr_add d_first 1) xs)"

definition SimpleVector_init ::
  "'a heap \<Rightarrow> 'a list \<Rightarrow> fault + (SimpleVector \<times> 'a heap)" where
  "SimpleVector_init h init =
     (case ArrayPtr_sized h (length init) of
        (its, h1) \<Rightarrow>
          (let this = \<lparr>items = its, size_v = length init, capacity = length init\<rparr> in
           case assign_list h1 (begin_v this) init of
             Inl e \<Rightarrow> Inl e
           | Inr h2 \<Rightarrow> Inr (this, h2)))"

text \<open>
  \<^verbatim>\<open>SimpleVector(const SimpleVector& other)\<close>: the new object starts from the member
  initialisers, a temporary of \<^verbatim>\<open>other.size_\<close> elements receives the copy, the two
  are swapped and the temporary is destroyed.
\<close>

definition SimpleVector_copy ::
  "'a heap \<Rightarrow> SimpleVector \<Rightarrow> 'a \<Rightarrow> fault + (SimpleVector \<times> 'a heap)" where
  "SimpleVector_copy h other dflt =
     (case SimpleVector_sized h (size_v other) dflt of
        Inl e \<Rightarrow> Inl e
      | Inr (tmp, h1) \<Rightarrow>
          (case std_copy h1 (begin_v other) (end_v other) (begin_v tmp) of
             Inl e \<Rightarrow> Inl e
           | Inr h2 \<Rightarrow>
               (case SimpleVector_swap SimpleVector_default tmp of
                  (this, tmp') \<Rightarrow>
                    (case SimpleVector_dtor h2 tmp' of
                       Inl e \<Rightarrow> Inl e
                     | Inr h3 \<Rightarrow> Inr (this, h3)))))"

text \<open>
  \<^verbatim>\<open>std::exchange(obj, new_value)\<close> on \<^verbatim>\<open>ArrayPtr\<close>: the old value is move-constructed
  from \<open>obj\<close>, \<open>obj\<close> is move-assigned from \<open>new_value\<close>, and the old value is
  returned (constructed in place in the caller). The result is the returned object and
  \<open>obj\<close> afterwards. The only argument the source passes for \<open>new_value\<close> is the
  temporary \<^verbatim>\<open>ArrayPtr<Type> {}\<close>, whose destructor deletes \<^verbatim>\<open>nullptr\<close>.
\<close>

definition std_exchange :: "ArrayPtr \<Rightarrow> ArrayPtr \<Rightarrow> ArrayPtr \<times> ArrayPtr" where
  "std_exchange obj new_value =
     (case ArrayPtr_move_ctor obj of
        (old_value, obj1) \<Rightarrow>
          (case ArrayPtr_move_assign obj1 new_value of
             (obj2, new_value') \<Rightarrow> (old_value, obj2)))"

text \<open>\<^verbatim>\<open>SimpleVector(SimpleVector&& other)\<close>: the new object and \<open>other\<close> afterwards.\<close>

definition SimpleVector_move :: "SimpleVector \<Rightarrow> SimpleVector \<times> SimpleVector" where
  "SimpleVector_move other =
     (case std_exchange (items other) ArrayPtr_default of
        (its, other_items) \<Rightarrow>
          (\<lparr>items = its, size_v = size_v other, capacity = capacity other\<rparr>,
           other\<lparr>items := other_items, size_v := 0, capacity := 0\<rparr>))"


subsection \<open>Relational operators\<close>

definition op_eq :: "'a heap \<Rightarrow> SimpleVector \<Rightarrow> SimpleVector \<Rightarrow> fault + bool" where
  "op_eq h lhs rhs =
     (if GetSize lhs = GetSize rhs
      then std_equal h (begin_v lhs) (end_v lhs) (begin_v rhs)
      else Inr False)"

definition op_ne :: "'a heap \<Rightarrow> SimpleVector \<Rightarrow> SimpleVector \<Rightarrow> fault + bool" where
  "op_ne h lhs rhs = map_sum id Not (op_eq h lhs rhs)"

definition op_lt :: "('a::ord) heap \<Rightarrow> SimpleVector \<Rightarrow> SimpleVector \<Rightarrow> fault + bool" where
  "op_lt h lhs rhs =
     std_lexicographical_compare h (begin_v lhs) (end_v lhs) (begin_v rhs) (end_v rhs)"

definition op_le :: "('a::ord) heap \<Rightarrow> SimpleVector \<Rightarrow> SimpleVector \<Rightarrow> fault + bool" where
  "op_le h lhs rhs = map_sum id Not (op_lt h rhs lhs)"

definition op_gt :: "('a::ord) heap \<Rightarrow> SimpleVector \<Rightarrow> SimpleVector \<Rightarrow> fault + bool" where
  "op_gt h lhs rhs = op_lt h rhs lhs"

definition op_ge :: "('a::ord) heap \<Rightarrow> SimpleVector \<Rightarrow> SimpleVector \<Rightarrow> fault + bool" where
  "op_ge h lhs rhs = map_sum id Not (op_lt h lhs rhs)"

subsection \<open>Assignment\<close>

text \<open>
  \<^verbatim>\<open>operator=(const SimpleVector& rhs)\<close>: guarded by \<^verbatim>\<open>*this != rhs\<close>, the
  comparison of contents.
\<close>

definition op_assign ::
  "'a heap \<Rightarrow> SimpleVector \<Rightarrow> SimpleVector \<Rightarrow> 'a \<Rightarrow> fault + (SimpleVector \<times> 'a heap)" where
  "op_assign h this rhs dflt =
     (case op_ne h this rhs of
        Inl e \<Rightarrow> Inl e
      | Inr ne \<Rightarrow>
          if ne then
            (case SimpleVector_copy h rhs dflt of
               Inl e \<Rightarrow> Inl e
             | Inr (tmp, h1) \<Rightarrow>
                 (case SimpleVector_swap this tmp of
                    (this', tmp') \<Rightarrow>
                      (case SimpleVector_dtor h1 tmp' of
                         Inl e \<Rightarrow> Inl e
                       | Inr h2 \<Rightarrow> Inr (this', h2))))
          else Inr (this, h))"

text \<open>
  \<^verbatim>\<open>operator=(SimpleVector&& rhs)\<close>. Inside the body \<^verbatim>\<open>rhs\<close> is a named
  reference, hence an lvalue, so \<^verbatim>\<open>auto tmp(rhs)\<close> selects the copy constructor and
  \<^verbatim>\<open>rhs\<close> is not written. The result is this, \<open>rhs\<close> and the heap afterwards.
\<close>

definition op_assign_move ::
  "'a heap \<Rightarrow> SimpleVector \<Rightarrow> SimpleVector \<Rightarrow> 'a \<Rightarrow>
     fault + (SimpleVector \<times> SimpleVector \<times> 'a heap)" where
  "op_assign_move h this rhs dflt =
     (case op_ne h this rhs of
        Inl e \<Rightarrow> Inl e
      | Inr ne \<Rightarrow>
          if ne then
            (case SimpleVector_copy h rhs dflt of
               Inl e \<Rightarrow> Inl e
             | Inr (tmp, h1) \<Rightarrow>
                 (case SimpleVector_swap this tmp of
                    (this', tmp') \<Rightarrow>
                      (case SimpleVector_dtor h1 tmp' of
                         Inl e \<Rightarrow> Inl e
                       | Inr h2 \<Rightarrow> Inr (this', rhs, h2))))
          else Inr (this, rhs, h))"

subsection \<open>Modifiers and access\<close>

text \<open>
  \<^verbatim>\<open>Insert(ConstIterator pos, const Type& value)\<close>: the returned iterator, this and
  the heap afterwards. The parameter \<open>value\<close> is a reference; the assignment
  \<^verbatim>\<open>items_[index] = value\<close> reads it after \<^verbatim>\<open>std::copy_backward\<close> has run, and
  \<^verbatim>\<open>items_copy[index] = value\<close> after the first \<^verbatim>\<open>std::move\<close>.
\<close>

definition Insert ::
  "'a heap \<Rightarrow> SimpleVector \<Rightarrow> ptr \<Rightarrow> 'a reference \<Rightarrow>
     fault + (ptr \<times> SimpleVector \<times> 'a heap)" where
  "Insert h this pos value =
     (case std_distance (cbegin this) pos of
        Inl e \<Rightarrow> Inl e
      | Inr index \<Rightarrow>
          if size_v this < capacity this then
            (case std_copy_backward h pos (cend this) (ptr_add (end_v this) 1) of
               Inl e \<Rightarrow> Inl e
             | Inr h1 \<Rightarrow>
                 (case deref h1 value of
                    Inl e \<Rightarrow> Inl e
                  | Inr v \<Rightarrow>
                      (case store h1 (ArrayPtr_index (items this) index) v of
                         Inl e \<Rightarrow> Inl e
                       | Inr h2 \<Rightarrow> Inr (pos, this\<lparr>size_v := size_v this + 1\<rparr>, h2))))
          else
            (let capacity_new = max (size_v this + 1) (capacity this * 2) in
             case ArrayPtr_sized h capacity_new of
               (items_copy, h1) \<Rightarrow>
                 (let begin_new = Get items_copy in
                  case std_move h1 (cbegin this) pos begin_new of
                    Inl e \<Rightarrow> Inl e
                  | Inr h2 \<Rightarrow>
                      (case deref h2 value of
                         Inl e \<Rightarrow> Inl e
                       | Inr v \<Rightarrow>
                           (case store h2 (ArrayPtr_index items_copy index) v of
                              Inl e \<Rightarrow> Inl e
                            | Inr h3 \<Rightarrow>
                                (let begin_new' = ptr_add begin_new (index + 1) in
                                 case std_move h3 pos (cend this) begin_new' of
                                   Inl e \<Rightarrow> Inl e
                                 | Inr h4 \<Rightarrow>
                                     (case ArrayPtr_swap (items this) items_copy of
                                        (items', items_copy') \<Rightarrow>
                                          (case ArrayPtr_dtor h4 items_copy' of
                                             Inl e \<Rightarrow> Inl e
                                           | Inr h5 \<Rightarrow>
                                               Inr (ArrayPtr_index items' index,
                                                    this\<lparr>items := items',
                                                         size_v := size_v this + 1,
                                                         capacity := capacity_new\<rparr>,
                                                    h5)))))))))"

text \<open>
  \<^verbatim>\<open>Insert(Iterator pos, Type&& value)\<close>: the same steps with
  \<^verbatim>\<open>std::move_backward\<close> in place of \<^verbatim>\<open>std::copy_backward\<close>, and
  \<^verbatim>\<open>std::move(value)\<close> read at the same two places.
\<close>

definition Insert_move ::
  "'a heap \<Rightarrow> SimpleVector \<Rightarrow> ptr \<Rightarrow> 'a reference \<Rightarrow>
     fault + (ptr \<times> SimpleVector \<times> 'a heap)" where
  "Insert_move h this pos value =
     (case std_distance (begin_v this) pos of
        Inl e \<Rightarrow> Inl e
      | Inr index \<Rightarrow>
          if size_v this < capacity this then
            (case std_move_backward h pos (end_v this) (ptr_add (end_v this) 1) of
               Inl e \<Rightarrow> Inl e
             | Inr h1 \<Rightarrow>
                 (case deref h1 value of
                    Inl e \<Rightarrow> Inl e
                  | Inr v \<Rightarrow>
                      (case store h1 (ArrayPtr_index (items this) index) v of
                         Inl e \<Rightarrow> Inl e
                       | Inr h2 \<Rightarrow> Inr (pos, this\<lparr>size_v := size_v this + 1\<rparr>, h2))))
          else
            (let capacity_new = max (size_v this + 1) (capacity this * 2) in
             case ArrayPtr_sized h capacity_new of
               (items_copy, h1) \<Rightarrow>
                 (let begin_new = Get items_copy in
                  case std_move h1 (begin_v this) pos begin_new of
                    Inl e \<Rightarrow> Inl e
                  | Inr h2 \<Rightarrow>
                      (case deref h2 value of
                         Inl e \<Rightarrow> Inl e
                       | Inr v \<Rightarrow>
                           (case store h2 (ArrayPtr_index items_copy index) v of
                              Inl e \<Rightarrow> Inl e
                            | Inr h3 \<Rightarrow>
                                (let begin_new' = ptr_add begin_new (index + 1) in
                                 case std_move h3 pos (end_v this) begin_new' of
                                   Inl e \<Rightarrow> Inl e
                                 | Inr h4 \<Rightarrow>
                                     (case ArrayPtr_swap (items this) items_copy of
                                        (items', items_copy') \<Rightarrow>
                                          (case ArrayPtr_dtor h4 items_copy' of
                                             Inl e \<Rightarrow> Inl e
                                           | Inr h5 \<Rightarrow>
                                               Inr (ArrayPtr_index items' index,
                                                    this\<lparr>items := items',
                                                         size_v := size_v this + 1,
                                                         capacity := capacity_new\<rparr>,
                                                    h5)))))))))"

text \<open>
  \<^verbatim>\<open>PushBack(const Type& value)\<close> and \<^verbatim>\<open>PushBack(Type&& value)\<close> pass their
  reference on; the iterator \<^verbatim>\<open>Insert\<close> returns is dropped.
\<close>

definition PushBack ::
  "'a heap \<Rightarrow> SimpleVector \<Rightarrow> 'a reference \<Rightarrow> fault + (SimpleVector \<times> 'a heap)" where
  "PushBack h this value = map_sum id snd (Insert h this (end_v this) value)"

definition PushBack_move ::
  "'a heap \<Rightarrow> SimpleVector \<Rightarrow> 'a reference \<Rightarrow> fault + (SimpleVector \<times> 'a heap)" where
  "PushBack_move h this value = map_sum id snd (Insert_move h this (end_v this) value)"

definition PopBack :: "SimpleVector \<Rightarrow> SimpleVector" where
  "PopBack this = (if \<not> IsEmpty this then this\<lparr>size_v := size_v this - 1\<rparr> else this)"

text \<open>\<^verbatim>\<open>Erase(ConstIterator pos)\<close>: the returned iterator, this and the heap afterwards.\<close>

definition Erase ::
  "'a heap \<Rightarrow> SimpleVector \<Rightarrow> ptr \<Rightarrow> fault + (ptr \<times> SimpleVector \<times> 'a heap)" where
  "Erase h this pos =
     (if pos = end_v this then Inr (end_v this, this, h)
      else
        (case std_move h (ptr_add pos 1) (end_v this) pos of
           Inl e \<Rightarrow> Inl e
         | Inr h1 \<Rightarrow> Inr (pos, this\<lparr>size_v := size_v this - 1\<rparr>, h1)))"

text \<open>\<^verbatim>\<open>operator[]\<close>: the reference \<^verbatim>\<open>items_[index]\<close>, unchecked.\<close>

definition op_index :: "SimpleVector \<Rightarrow> nat \<Rightarrow> ptr" where
  "op_index this index = ArrayPtr_index (items this) index"

text \<open>
  \<^verbatim>\<open>At(size_t index)\<close>: the reference or the exception, and this afterwards. The
  function has no access to the heap.
\<close>

definition At :: "SimpleVector \<Rightarrow> nat \<Rightarrow> (fault + ptr) \<times> SimpleVector" where
  "At this index =
     (if index < size_v this then Inr (ArrayPtr_index (items this) index)
      else Inl out_of_range,
      this)"

definition Clear :: "SimpleVector \<Rightarrow> SimpleVector" where
  "Clear this = this\<lparr>size_v := 0\<rparr>"

text \<open>\<^verbatim>\<open>Resize(size_t new_size)\<close>\<close>

definition Resize ::
  "'a heap \<Rightarrow> SimpleVector \<Rightarrow> nat \<Rightarrow> 'a \<Rightarrow> fault + (SimpleVector \<times> 'a heap)" where
  "Resize h this new_size dflt =
     (if new_size \<le> size_v this then Inr (this\<lparr>size_v := new_size\<rparr>, h)
      else if new_size > size_v this \<and> new_size \<le> capacity this then
        (case std_generate h (end_v this) (ArrayPtr_index (items this) new_size) dflt of
           Inl e \<Rightarrow> Inl e
         | Inr h1 \<Rightarrow> Inr (this\<lparr>size_v := new_size\<rparr>, h1))
      else if new_size > capacity this then
        (case ArrayPtr_sized h new_size of
           (new_items, h1) \<Rightarrow>
             (case std_move h1 (begin_v this) (end_v this) (ArrayPtr_index new_items 0) of
                Inl e \<Rightarrow> Inl e
              | Inr h2 \<Rightarrow>
                  (case std_generate h2 (ArrayPtr_index new_items (size_v this))
                          (ArrayPtr_index new_items new_size) dflt of
                     Inl e \<Rightarrow> Inl e
                   | Inr h3 \<Rightarrow>
                       (case ArrayPtr_swap (items this) new_items of
                          (items', new_items') \<Rightarrow>
                            (case ArrayPtr_dtor h3 new_items' of
                               Inl e \<Rightarrow> Inl e
                             | Inr h4 \<Rightarrow>
                                 Inr (this\<lparr>items := items',
                                          size_v := new_size,
                                          capacity := max (capacity this * 2) new_size\<rparr>,
                                      h4))))))
      else Inr (this, h))"


section \<open>Invariant and contents\<close>

text \<open>
  The data invariant of a vector in a heap: the size is at most the capacity; a null
  handle comes with capacity zero; otherwise the handle names a live block that has
  exactly \<open>capacity\<close> slots, of which the first \<open>size\<close> hold a value.
\<close>

definition constructed :: "'a slot \<Rightarrow> bool" where
  "constructed s = (s \<noteq> Uninit)"

definition vec_inv :: "'a heap \<Rightarrow> SimpleVector \<Rightarrow> bool" where
  "vec_inv h v =
     (size_v v \<le> capacity v \<and>
      (case raw_ptr (items v) of
         None \<Rightarrow> capacity v = 0
       | Some a \<Rightarrow>
           (case cell_at h a of
              Freed \<Rightarrow> False
            | Live b \<Rightarrow> length b = capacity v \<and> list_all constructed (take (size_v v) b))))"

text \<open>The values a list of slots holds, and the contents of a vector: its first \<open>size\<close> slots.\<close>

fun objs :: "'a slot list \<Rightarrow> 'a list" where
  "objs [] = []"
| "objs (Uninit # ss) = objs ss"
| "objs (Obj v # ss) = v # objs ss"

definition slots_of :: "'a heap \<Rightarrow> SimpleVector \<Rightarrow> 'a slot list" where
  "slots_of h v =
     (case raw_ptr (items v) of
        None \<Rightarrow> []
      | Some a \<Rightarrow> (case cell_at h a of Freed \<Rightarrow> [] | Live b \<Rightarrow> b))"

definition elems :: "'a heap \<Rightarrow> SimpleVector \<Rightarrow> 'a list" where
  "elems h v = objs (take (size_v v) (slots_of h v))"



section \<open>The heap and the loops\<close>

lemma cell_at_update:
  "cell_at (h[a := c]) a' = (if a' = a \<and> a < length h then c else cell_at h a')"
  by (simp add: cell_at_def)

lemma cell_at_Live_less: "cell_at h a = Live b \<Longrightarrow> a < length h"
  by (simp add: cell_at_def split: if_splits)

lemma cell_at_append:
  "cell_at (h @ [c]) a = (if a = length h then c else cell_at h a)"
  by (simp add: cell_at_def nth_append)

lemma load_Live:
  "cell_at h a = Live b \<Longrightarrow>
     load h (Ptr (Some a) i) =
       (if i < length b then (case b ! i of Uninit \<Rightarrow> Inl undefined_behaviour | Obj v \<Rightarrow> Inr v)
        else Inl undefined_behaviour)"
  by (simp add: load_def)

lemma store_Live:
  "cell_at h a = Live b \<Longrightarrow>
     store h (Ptr (Some a) i) v =
       (if i < length b then Inr (h[a := Live (b[i := Obj v])]) else Inl undefined_behaviour)"
  by (simp add: store_def)

lemma ptr_add_Ptr: "ptr_add (Ptr b i) n = Ptr b (i + n)"
  by (simp add: ptr_add_def)

lemma take_Suc_drop:
  "i < length b \<Longrightarrow> take (Suc n) (drop i b) = b ! i # take n (drop (Suc i) b)"
  by (simp add: Cons_nth_drop_Suc [symmetric])

lemma update_same_cell: "cell_at h a = Live b \<Longrightarrow> h[a := Live b] = h"
  by (simp add: cell_at_def list_update_same_conv split: if_splits)

lemma fill_loop_Live:
  "cell_at h a = Live b \<Longrightarrow> i + n \<le> length b \<Longrightarrow>
     fill_loop n h (Ptr (Some a) i) v =
       Inr (h[a := Live (take i b @ replicate n (Obj v) @ drop (i + n) b)])"
proof (induction n arbitrary: h i b)
  case 0
  then show ?case by (simp add: update_same_cell)
next
  case (Suc n)
  let ?b = "b[i := Obj v]"
  let ?h = "h[a := Live ?b]"
  have a: "a < length h" using Suc.prems(1) by (rule cell_at_Live_less)
  have c: "cell_at ?h a = Live ?b" using a by (simp add: cell_at_update)
  have l: "Suc i + n \<le> length ?b" using Suc.prems(2) by simp
  have "fill_loop (Suc n) h (Ptr (Some a) i) v = fill_loop n ?h (Ptr (Some a) (Suc i)) v"
    using Suc.prems by (simp add: store_Live ptr_add_Ptr)
  also have "\<dots> = Inr (?h[a := Live (take (Suc i) ?b @ replicate n (Obj v) @ drop (Suc i + n) ?b)])"
    by (rule Suc.IH [OF c l])
  also have "\<dots> = Inr (h[a := Live (take i b @ replicate (Suc n) (Obj v) @ drop (i + Suc n) b)])"
    using Suc.prems(2) by (simp add: take_Suc_conv_app_nth)
  finally show ?case .
qed

lemma assign_list_Live:
  "cell_at h a = Live b \<Longrightarrow> i + length xs \<le> length b \<Longrightarrow>
     assign_list h (Ptr (Some a) i) xs =
       Inr (h[a := Live (take i b @ map Obj xs @ drop (i + length xs) b)])"
proof (induction xs arbitrary: h i b)
  case Nil
  then show ?case by (simp add: update_same_cell)
next
  case (Cons x xs)
  let ?b = "b[i := Obj x]"
  let ?h = "h[a := Live ?b]"
  have a: "a < length h" using Cons.prems(1) by (rule cell_at_Live_less)
  have c: "cell_at ?h a = Live ?b" using a by (simp add: cell_at_update)
  have l: "Suc i + length xs \<le> length ?b" using Cons.prems(2) by simp
  have "assign_list h (Ptr (Some a) i) (x # xs) = assign_list ?h (Ptr (Some a) (Suc i)) xs"
    using Cons.prems by (simp add: store_Live ptr_add_Ptr)
  also have "\<dots> = Inr (?h[a := Live (take (Suc i) ?b @ map Obj xs @ drop (Suc i + length xs) ?b)])"
    by (rule Cons.IH [OF c l])
  also have "\<dots> = Inr (h[a := Live (take i b @ map Obj (x # xs) @ drop (i + length (x # xs)) b)])"
    using Cons.prems(2) by (simp add: take_Suc_conv_app_nth)
  finally show ?case .
qed

text \<open>A segment of a block that holds values only.\<close>

lemma constructed_Obj: "constructed s \<Longrightarrow> \<exists>v. s = Obj v"
  by (cases s) (simp_all add: constructed_def)

lemma copy_loop_other:
  assumes "cell_at h a = Live sb" and "cell_at h d = Live db" and "a \<noteq> d"
    and "i + n \<le> length sb" and "k + n \<le> length db"
    and "list_all constructed (take n (drop i sb))"
  shows "copy_loop n h (Ptr (Some a) i) (Ptr (Some d) k) =
           Inr (h[d := Live (take k db @ take n (drop i sb) @ drop (k + n) db)])"
  using assms
proof (induction n arbitrary: h i k db)
  case 0
  then show ?case by (simp add: update_same_cell)
next
  case (Suc n)
  have i: "i < length sb" using Suc.prems(4) by simp
  have tk: "take (Suc n) (drop i sb) = sb ! i # take n (drop (Suc i) sb)"
    using i by (rule take_Suc_drop)
  from Suc.prems(6) tk obtain v where v: "sb ! i = Obj v"
    using constructed_Obj by fastforce
  let ?db = "db[k := Obj v]"
  let ?h = "h[d := Live ?db]"
  have d: "d < length h" using Suc.prems(2) by (rule cell_at_Live_less)
  have c1: "cell_at ?h a = Live sb" using Suc.prems(1,3) by (simp add: cell_at_update)
  have c2: "cell_at ?h d = Live ?db" using d by (simp add: cell_at_update)
  have "copy_loop (Suc n) h (Ptr (Some a) i) (Ptr (Some d) k) =
          copy_loop n ?h (Ptr (Some a) (Suc i)) (Ptr (Some d) (Suc k))"
    using Suc.prems(1,2,4,5) i v by (simp add: load_Live store_Live ptr_add_Ptr)
  also have "\<dots> = Inr (?h[d := Live (take (Suc k) ?db @ take n (drop (Suc i) sb) @ drop (Suc k + n) ?db)])"
    using Suc.prems(4,5,6) tk by (intro Suc.IH [OF c1 c2 Suc.prems(3)]) simp_all
  also have "\<dots> = Inr (h[d := Live (take k db @ take (Suc n) (drop i sb) @ drop (k + Suc n) db)])"
    using Suc.prems(5) tk v by (simp add: take_Suc_conv_app_nth)
  finally show ?case .
qed

lemma copy_loop_left:
  assumes "cell_at h a = Live b" and "k \<le> i" and "i + n \<le> length b"
    and "list_all constructed (take n (drop i b))"
  shows "copy_loop n h (Ptr (Some a) i) (Ptr (Some a) k) =
           Inr (h[a := Live (take k b @ take n (drop i b) @ drop (k + n) b)])"
  using assms
proof (induction n arbitrary: h i k b)
  case 0
  then show ?case by (simp add: update_same_cell)
next
  case (Suc n)
  have i: "i < length b" using Suc.prems(3) by simp
  have tk: "take (Suc n) (drop i b) = b ! i # take n (drop (Suc i) b)"
    using i by (rule take_Suc_drop)
  from Suc.prems(4) tk obtain v where v: "b ! i = Obj v"
    using constructed_Obj by fastforce
  let ?b = "b[k := Obj v]"
  let ?h = "h[a := Live ?b]"
  have a: "a < length h" using Suc.prems(1) by (rule cell_at_Live_less)
  have c: "cell_at ?h a = Live ?b" using a by (simp add: cell_at_update)
  have dr: "drop (Suc i) ?b = drop (Suc i) b" using Suc.prems(2) by simp
  have "copy_loop (Suc n) h (Ptr (Some a) i) (Ptr (Some a) k) =
          copy_loop n ?h (Ptr (Some a) (Suc i)) (Ptr (Some a) (Suc k))"
    using Suc.prems(1,2,3) i v by (simp add: load_Live store_Live ptr_add_Ptr)
  also have "\<dots> = Inr (?h[a := Live (take (Suc k) ?b @ take n (drop (Suc i) ?b) @ drop (Suc k + n) ?b)])"
    using Suc.prems(2,3,4) tk dr by (intro Suc.IH [OF c]) simp_all
  also have "\<dots> = Inr (h[a := Live (take k b @ take (Suc n) (drop i b) @ drop (k + Suc n) b)])"
    using Suc.prems(2,3) tk v dr by (simp add: take_Suc_conv_app_nth)
  finally show ?case .
qed


lemma copy_backward_loop_right:
  assumes "cell_at h a = Live b" and "l \<le> dl" and "n \<le> l" and "dl \<le> length b"
    and "list_all constructed (take n (drop (l - n) b))"
  shows "copy_backward_loop n h (Ptr (Some a) l) (Ptr (Some a) dl) =
           Inr (h[a := Live (take (dl - n) b @ take n (drop (l - n) b) @ drop dl b)])"
  using assms
proof (induction n arbitrary: h l dl b)
  case 0
  then show ?case by (simp add: update_same_cell)
next
  case (Suc n)
  obtain l' where l': "l = Suc l'" using Suc.prems(3) by (cases l) simp_all
  obtain dl' where dl': "dl = Suc dl'" using Suc.prems(2) l' by (cases dl) simp_all
  have ll: "l' < length b" "dl' < length b" "l' \<le> dl'" "n \<le> l'"
    using Suc.prems(2,3,4) l' dl' by simp_all
  have sp: "take (Suc n) (drop (l' - n) b) = take n (drop (l' - n) b) @ [b ! l']"
    using ll by (simp add: take_Suc_conv_app_nth)
  from Suc.prems(5) sp l' obtain v where v: "b ! l' = Obj v"
    using constructed_Obj by fastforce
  let ?b = "b[dl' := Obj v]"
  let ?h = "h[a := Live ?b]"
  have a: "a < length h" using Suc.prems(1) by (rule cell_at_Live_less)
  have c: "cell_at ?h a = Live ?b" using a by (simp add: cell_at_update)
  have tk: "take n (drop (l' - n) ?b) = take n (drop (l' - n) b)"
    using ll by (simp add: take_drop)
  have "copy_backward_loop (Suc n) h (Ptr (Some a) l) (Ptr (Some a) dl) =
          copy_backward_loop n ?h (Ptr (Some a) l') (Ptr (Some a) dl')"
    using Suc.prems(1) ll v l' dl' by (simp add: load_Live store_Live)
  also have "\<dots> = Inr (?h[a := Live (take (dl' - n) ?b @ take n (drop (l' - n) ?b) @ drop dl' ?b)])"
    using Suc.prems(5) ll sp tk l' by (intro Suc.IH [OF c]) simp_all
  also have "\<dots> = Inr (h[a := Live (take (dl - Suc n) b @ take (Suc n) (drop (l - Suc n) b) @ drop dl b)])"
    using ll sp tk v l' dl' by (simp add: Cons_nth_drop_Suc [symmetric] upd_conv_take_nth_drop)
  finally show ?case .
qed

lemma segment_Cons:
  assumes "take (Suc n) (drop i b) = s # ss" 
  shows "i < length b \<and> b ! i = s \<and> take n (drop (Suc i) b) = ss"
proof -
  have i: "i < length b" using assms by (cases "i < length b") simp_all
  then show ?thesis using assms by (simp add: take_Suc_drop)
qed

lemma equal_loop_Live:
  assumes "cell_at h a = Live b" and "cell_at h c = Live b'"
    and "length xs = n" and "length ys = n"
    and "take n (drop i b) = map Obj xs" and "take n (drop j b') = map Obj ys"
  shows "equal_loop n h (Ptr (Some a) i) (Ptr (Some c) j) = Inr (xs = ys)"
  using assms(3-)
proof (induction n arbitrary: xs ys i j)
  case 0
  then show ?case by simp
next
  case (Suc n)
  obtain x xs' where xs: "xs = x # xs'" using Suc.prems(1) by (cases xs) simp_all
  obtain y ys' where ys: "ys = y # ys'" using Suc.prems(2) by (cases ys) simp_all
  have sx: "i < length b \<and> b ! i = Obj x \<and> take n (drop (Suc i) b) = map Obj xs'"
    using Suc.prems(3) xs by (intro segment_Cons) simp
  have sy: "j < length b' \<and> b' ! j = Obj y \<and> take n (drop (Suc j) b') = map Obj ys'"
    using Suc.prems(4) ys by (intro segment_Cons) simp
  have ih: "equal_loop n h (Ptr (Some a) (Suc i)) (Ptr (Some c) (Suc j)) = Inr (xs' = ys')"
    using Suc.prems(1,2) xs ys sx sy by (intro Suc.IH) simp_all
  show ?case
    using assms(1,2) sx sy ih xs ys by (simp add: load_Live ptr_add_Ptr)
qed

lemma lexicographical_loop_Live:
  fixes h :: "('a::linorder) heap"
  assumes "cell_at h a = Live b" and "cell_at h c = Live b'"
    and "length xs = n1" and "length ys = n2"
    and "take n1 (drop i b) = map Obj xs" and "take n2 (drop j b') = map Obj ys"
  shows "lexicographical_loop n1 n2 h (Ptr (Some a) i) (Ptr (Some c) j) =
           Inr ((xs, ys) \<in> lexord {(x, y). x < y})"
  using assms(3-)
proof (induction xs arbitrary: n1 n2 ys i j)
  case Nil
  then show ?case by (cases ys) auto
next
  case (Cons x xs')
  obtain m1 where n1: "n1 = Suc m1" using Cons.prems(1) by (cases n1) auto
  show ?case
  proof (cases ys)
    case Nil
    then show ?thesis using Cons.prems n1 by simp
  next
    case (Cons y ys')
    obtain m2 where n2: "n2 = Suc m2" using Cons.prems(2) Cons by (cases n2) auto
    have sx: "i < length b \<and> b ! i = Obj x \<and> take m1 (drop (Suc i) b) = map Obj xs'"
      using Cons.prems(3) n1 by (intro segment_Cons) simp
    have sy: "j < length b' \<and> b' ! j = Obj y \<and> take m2 (drop (Suc j) b') = map Obj ys'"
      using Cons.prems(4) n2 Cons by (intro segment_Cons) simp
    have ih: "lexicographical_loop m1 m2 h (Ptr (Some a) (Suc i)) (Ptr (Some c) (Suc j)) =
                Inr ((xs', ys') \<in> lexord {(x, y). x < y})"
      using Cons.prems(1,2) n1 n2 Cons sx sy by (intro Cons.IH) simp_all
    show ?thesis
      using assms(1,2) sx sy ih n1 n2 Cons by (auto simp: load_Live ptr_add_Ptr)
  qed
qed



section \<open>Vectors that satisfy the invariant\<close>

lemma objs_map_Obj: "objs (map Obj xs) = xs"
  by (induction xs) simp_all

lemma map_Obj_objs: "list_all constructed ss \<Longrightarrow> map Obj (objs ss) = ss"
proof (induction ss)
  case Nil
  then show ?case by simp
next
  case (Cons s ss)
  then show ?case by (cases s) (simp_all add: constructed_def)
qed

lemma list_all_constructed_map_Obj: "list_all constructed (map Obj xs)"
  by (induction xs) (simp_all add: constructed_def)

lemma length_objs: "list_all constructed ss \<Longrightarrow> length (objs ss) = length ss"
  using map_Obj_objs [of ss] by (metis length_map)

lemma slots_of_Some: "raw_ptr (items v) = Some a \<Longrightarrow> cell_at h a = Live b \<Longrightarrow> slots_of h v = b"
  by (simp add: slots_of_def)

lemma vec_inv_None:
  assumes "vec_inv h v" and "raw_ptr (items v) = None"
  shows "capacity v = 0" and "size_v v = 0" and "elems h v = []"
  using assms by (simp_all add: vec_inv_def elems_def slots_of_def)

lemma vec_inv_Some:
  assumes "vec_inv h v" and "raw_ptr (items v) = Some a"
  shows "cell_at h a = Live (slots_of h v)" and "a < length h"
proof -
  show "cell_at h a = Live (slots_of h v)"
    using assms by (simp add: vec_inv_def slots_of_def split: cell.splits)
  then show "a < length h" by (rule cell_at_Live_less)
qed

lemma vec_inv_slots:
  assumes "vec_inv h v"
  shows "size_v v \<le> capacity v" and "length (slots_of h v) = capacity v"
    and "take (size_v v) (slots_of h v) = map Obj (elems h v)"
    and "length (elems h v) = size_v v"
proof -
  show c: "size_v v \<le> capacity v" using assms by (simp add: vec_inv_def)
  show l: "length (slots_of h v) = capacity v"
    using assms by (simp add: vec_inv_def slots_of_def split: option.splits cell.splits)
  have a: "list_all constructed (take (size_v v) (slots_of h v))"
    using assms by (simp add: vec_inv_def slots_of_def split: option.splits cell.splits)
  show "take (size_v v) (slots_of h v) = map Obj (elems h v)"
    using a by (simp add: elems_def map_Obj_objs)
  show "length (elems h v) = size_v v"
    using a c l by (simp add: elems_def length_objs)
qed

lemma vec_invI:
  assumes "raw_ptr (items v) = Some a" and "cell_at h a = Live b"
    and "length b = capacity v" and "size_v v \<le> capacity v"
    and "take (size_v v) b = map Obj xs"
  shows "vec_inv h v" and "elems h v = xs"
  using assms by (simp_all add: vec_inv_def elems_def slots_of_def list_all_constructed_map_Obj objs_map_Obj)

lemma slots_of_append: "vec_inv h v \<Longrightarrow> slots_of (h @ [c]) v = slots_of h v"
  by (auto simp: vec_inv_def slots_of_def cell_at_append split: option.splits cell.splits dest: cell_at_Live_less)

lemma slots_of_update:
  "raw_ptr (items v) \<noteq> Some d \<Longrightarrow> slots_of (h[d := c]) v = slots_of h v"
  by (auto simp: slots_of_def cell_at_update split: option.splits)

lemma vec_inv_cong:
  assumes "vec_inv h v" and "raw_ptr (items v) = raw_ptr (items v')"
    and "size_v v' = size_v v" and "capacity v' = capacity v"
    and "\<And>a. raw_ptr (items v) = Some a \<Longrightarrow> cell_at h' a = cell_at h a"
  shows "vec_inv h' v'" and "elems h' v' = elems h v" and "slots_of h' v' = slots_of h v"
proof -
  show s: "slots_of h' v' = slots_of h v"
    using assms(2,5) by (simp add: slots_of_def split: option.splits)
  show "elems h' v' = elems h v"
    using s assms(3) by (simp add: elems_def)
  show "vec_inv h' v'"
  proof (cases "raw_ptr (items v)")
    case None
    then show ?thesis using assms(1-4) by (simp add: vec_inv_def)
  next
    case (Some a)
    then show ?thesis using assms(1-4) assms(5) [OF Some]
      by (simp add: vec_inv_def split: cell.splits)
  qed
qed

lemma std_distance_Ptr: "i \<le> j \<Longrightarrow> std_distance (Ptr b i) (Ptr b j) = Inr (j - i)"
  by (simp add: std_distance_def)

lemma copy_loop_from_vec:
  assumes "vec_inv h v" and "cell_at h d = Live db" and "raw_ptr (items v) \<noteq> Some d"
    and "i + n \<le> size_v v" and "k + n \<le> length db"
  shows "copy_loop n h (Ptr (raw_ptr (items v)) i) (Ptr (Some d) k) =
           Inr (h[d := Live (take k db @ map Obj (take n (drop i (elems h v))) @ drop (k + n) db)])"
proof (cases "raw_ptr (items v)")
  case None
  then have "n = 0" using assms(1,4) vec_inv_None(2) by fastforce
  then show ?thesis using assms(2) by (simp add: update_same_cell)
next
  case (Some a)
  let ?b = "slots_of h v"
  note s = vec_inv_slots [OF assms(1)]
  have c: "cell_at h a = Live ?b" using assms(1) Some by (rule vec_inv_Some)
  have "take n (drop i ?b) = take n (drop i (take (size_v v) ?b))"
    using assms(4) by (simp add: drop_take)
  then have t: "take n (drop i ?b) = map Obj (take n (drop i (elems h v)))"
    by (simp add: s(3) take_map drop_map)
  have "copy_loop n h (Ptr (Some a) i) (Ptr (Some d) k) =
          Inr (h[d := Live (take k db @ take n (drop i ?b) @ drop (k + n) db)])"
    using c assms(2) assms(3) Some assms(4,5) s t
    by (intro copy_loop_other) (simp_all add: list_all_constructed_map_Obj)
  then show ?thesis by (simp add: Some t)
qed


section \<open>Operations that keep the invariant by their shape\<close>

lemma SimpleVector_default_inv: "vec_inv h SimpleVector_default"
  by (simp add: vec_inv_def SimpleVector_default_def ArrayPtr_default_def)

lemma Clear_inv: "vec_inv h v \<Longrightarrow> vec_inv h (Clear v)"
  by (simp add: vec_inv_def Clear_def split: option.splits cell.splits)

lemma PopBack_inv: "vec_inv h v \<Longrightarrow> vec_inv h (PopBack v)"
proof -
  assume i: "vec_inv h v"
  have "list_all constructed (take (size_v v - 1) b)"
    if "list_all constructed (take (size_v v) b)" for b :: "'a slot list"
  proof -
    have "take (size_v v - 1) b = take (size_v v - 1) (take (size_v v) b)" by simp
    then show ?thesis using that by (metis list_all_length length_take nth_take min_less_iff_conj)
  qed
  then show ?thesis
    using i by (auto simp: vec_inv_def PopBack_def IsEmpty_def split: option.splits cell.splits)
qed

lemma SimpleVector_swap_inv:
  "vec_inv h a \<Longrightarrow> vec_inv h b \<Longrightarrow>
     vec_inv h (fst (SimpleVector_swap a b)) \<and> vec_inv h (snd (SimpleVector_swap a b))"
  by (simp add: vec_inv_def SimpleVector_swap_def ArrayPtr_swap_def Release_def
      split: option.splits cell.splits)


section \<open>ArrayPtr: the defaulted move operations\<close>

text \<open>
  C1. The claim: move construction and move assignment of an ArrayPtr transfer the raw
  handle to the destination, leave the source with the null handle, and neither
  allocate nor deallocate. On the code the destination receives the handle and the heap
  is not touched, but the source keeps the handle: for the block of three elements
  allocated first in an empty heap (address 0), the source still holds address 0 after
  a move construction and after a move assignment into an empty ArrayPtr. Both objects
  then own the block, and the destructor of the second one to be destroyed deletes a
  block that is already freed.
\<close>

theorem ArrayPtr_move_keeps_source_handle:
  "ArrayPtr_sized ([] :: int heap) 3 = (\<lparr>raw_ptr = Some 0\<rparr>, [Live [Uninit, Uninit, Uninit]]) \<and>
   ArrayPtr_move_ctor \<lparr>raw_ptr = Some 0\<rparr> = (\<lparr>raw_ptr = Some 0\<rparr>, \<lparr>raw_ptr = Some 0\<rparr>) \<and>
   ArrayPtr_move_assign \<lparr>raw_ptr = None\<rparr> \<lparr>raw_ptr = Some 0\<rparr> =
     (\<lparr>raw_ptr = Some 0\<rparr>, \<lparr>raw_ptr = Some 0\<rparr>) \<and>
   ArrayPtr_dtor ([Live [Uninit, Uninit, Uninit]] :: int heap) \<lparr>raw_ptr = Some 0\<rparr> = Inr [Freed] \<and>
   ArrayPtr_dtor ([Freed] :: int heap) \<lparr>raw_ptr = Some 0\<rparr> = Inl undefined_behaviour"
  by (simp add: ArrayPtr_sized_def new_array_def ArrayPtr_move_ctor_def ArrayPtr_move_assign_def
      ArrayPtr_dtor_def delete_array_def cell_at_def numeral_3_eq_3)


section \<open>Reserve\<close>

lemma ArrayPtr_sized_pos:
  "n \<noteq> 0 \<Longrightarrow> ArrayPtr_sized h n = (\<lparr>raw_ptr = Some (length h)\<rparr>, h @ [Live (replicate n Uninit)])"
  by (simp add: ArrayPtr_sized_def new_array_def)

lemma ArrayPtr_swap_eq:
  "ArrayPtr_swap p q = (p\<lparr>raw_ptr := raw_ptr q\<rparr>, q\<lparr>raw_ptr := raw_ptr p\<rparr>)"
  by (simp add: ArrayPtr_swap_def Release_def)

lemma vec_ptrs:
  "begin_v v = Ptr (raw_ptr (items v)) 0" "end_v v = Ptr (raw_ptr (items v)) (size_v v)"
  "cbegin v = Ptr (raw_ptr (items v)) 0" "cend v = Ptr (raw_ptr (items v)) (size_v v)"
  "ArrayPtr_index p i = Ptr (raw_ptr p) i" "Get p = Ptr (raw_ptr p) 0"
  by (simp_all add: begin_v_def end_v_def cbegin_def cend_def ArrayPtr_index_def Get_def ptr_add_def)

lemma vec_inv_not_fresh: "vec_inv h v \<Longrightarrow> raw_ptr (items v) \<noteq> Some (length h)"
  using vec_inv_Some(2) [of h v "length h"] by fastforce

lemma vec_inv_fresh:
  assumes "vec_inv h v"
  shows "vec_inv (h @ [c]) v" and "elems (h @ [c]) v = elems h v"
    and "slots_of (h @ [c]) v = slots_of h v"
proof -
  have f: "raw_ptr (items v) \<noteq> Some (length h)"
    using assms by (rule vec_inv_not_fresh)
  have c: "\<And>a. raw_ptr (items v) = Some a \<Longrightarrow> cell_at (h @ [c]) a = cell_at h a"
    using f by (simp add: cell_at_append)
  show "vec_inv (h @ [c]) v"
    by (rule vec_inv_cong(1) [OF assms refl refl refl c])
  show "elems (h @ [c]) v = elems h v"
    by (rule vec_inv_cong(2) [OF assms refl refl refl c])
  show "slots_of (h @ [c]) v = slots_of h v"
    by (rule vec_inv_cong(3) [OF assms refl refl refl c])
qed

text \<open>Destroying the ArrayPtr that holds a vector's block.\<close>

lemma delete_vec_block:
  assumes "vec_inv h v" and "\<And>a. raw_ptr (items v) = Some a \<Longrightarrow> cell_at h' a = cell_at h a"
  shows "delete_array h' (raw_ptr (items v)) =
           Inr (case raw_ptr (items v) of None \<Rightarrow> h' | Some a \<Rightarrow> h'[a := Freed])"
proof (cases "raw_ptr (items v)")
  case None
  then show ?thesis by (simp add: delete_array_def)
next
  case (Some a)
  then show ?thesis
    using vec_inv_Some(1) [OF assms(1) Some] assms(2) [OF Some] by (simp add: delete_array_def)
qed

lemma Reserve_grow:
  assumes inv: "vec_inv h v" and n: "capacity v < n"
  shows "Reserve h v n =
           Inr (v\<lparr>items := (items v)\<lparr>raw_ptr := Some (length h)\<rparr>, capacity := n\<rparr>,
                (case raw_ptr (items v) of
                   None \<Rightarrow> h @ [Live (map Obj (elems h v) @ replicate (n - size_v v) Uninit)]
                 | Some a \<Rightarrow>
                     (h @ [Live (map Obj (elems h v) @ replicate (n - size_v v) Uninit)])[a := Freed]))"
proof -
  let ?d = "length h"
  let ?h1 = "h @ [Live (replicate n Uninit)]"
  let ?blk = "map Obj (elems h v) @ replicate (n - size_v v) Uninit"
  let ?h2 = "h @ [Live ?blk]"
  note nf = vec_inv_not_fresh [OF inv]
  note f = vec_inv_fresh [OF inv, of "Live (replicate n Uninit)"]
  note s = vec_inv_slots [OF inv]
  have al: "ArrayPtr_sized h n = (\<lparr>raw_ptr = Some ?d\<rparr>, ?h1)"
    using n by (simp add: ArrayPtr_sized_pos)
  have "copy_loop (size_v v) ?h1 (Ptr (raw_ptr (items v)) 0) (Ptr (Some ?d) 0) =
          Inr (?h1[?d := Live (take 0 (replicate n Uninit) @ map Obj (take (size_v v) (drop 0 (elems ?h1 v)))
                 @ drop (0 + size_v v) (replicate n Uninit))])"
    using nf f(1) s(1) n by (intro copy_loop_from_vec) (simp_all add: cell_at_append)
  then have mv: "std_move ?h1 (begin_v v) (end_v v) (Ptr (Some ?d) 0) = Inr ?h2"
    using s(4) by (simp add: std_move_def std_copy_def vec_ptrs std_distance_Ptr f(2))
  have "\<And>a. raw_ptr (items v) = Some a \<Longrightarrow> cell_at ?h2 a = cell_at h a"
    using nf by (simp add: cell_at_append)
  then have del: "delete_array ?h2 (raw_ptr (items v)) =
      Inr (case raw_ptr (items v) of None \<Rightarrow> ?h2 | Some a \<Rightarrow> ?h2[a := Freed])"
    by (rule delete_vec_block [OF inv])
  show ?thesis
    using n al mv del
    by (simp add: Reserve_def vec_ptrs ArrayPtr_swap_eq ArrayPtr_dtor_def)
qed


lemma realloc_heap:
  assumes "vec_inv h v"
  shows "cell_at (case raw_ptr (items v) of None \<Rightarrow> h @ [Live blk]
                  | Some a \<Rightarrow> (h @ [Live blk])[a := Freed]) (length h) = Live blk"
    and "raw_ptr (items v) = Some a \<Longrightarrow>
           cell_at (case raw_ptr (items v) of None \<Rightarrow> h @ [Live blk]
                    | Some a \<Rightarrow> (h @ [Live blk])[a := Freed]) a = Freed"
    and "length (case raw_ptr (items v) of None \<Rightarrow> h @ [Live blk]
                 | Some a \<Rightarrow> (h @ [Live blk])[a := Freed]) = Suc (length h)"
  using vec_inv_not_fresh [OF assms] vec_inv_Some(2) [OF assms]
  by (auto simp: cell_at_update cell_at_append split: option.splits)

text \<open>
  C7. For a vector that satisfies the invariant and every \<open>n\<close>: if \<open>n\<close> exceeds the
  capacity, \<open>Reserve\<close> returns normally with capacity \<open>n\<close>, the same size and the same
  elements in the same order, held in a fresh block of exactly \<open>n\<close> slots, and the old
  block is freed; if \<open>n\<close> is at most the capacity, neither the vector nor the heap
  changes; and the capacity never decreases.
\<close>

theorem Reserve_spec:
  assumes "vec_inv h v"
  shows "(capacity v < n \<longrightarrow>
            (\<exists>v' h'. Reserve h v n = Inr (v', h') \<and> capacity v' = n \<and> size_v v' = size_v v \<and>
               elems h' v' = elems h v \<and> vec_inv h' v' \<and>
               raw_ptr (items v') = Some (length h) \<and> length (slots_of h' v') = n \<and>
               (\<forall>a. raw_ptr (items v) = Some a \<longrightarrow> cell_at h' a = Freed))) \<and>
         (n \<le> capacity v \<longrightarrow> Reserve h v n = Inr (v, h)) \<and>
         (\<forall>v' h'. Reserve h v n = Inr (v', h') \<longrightarrow> capacity v \<le> capacity v')"
proof (intro conjI impI allI)
  assume n: "capacity v < n"
  let ?blk = "map Obj (elems h v) @ replicate (n - size_v v) Uninit"
  let ?v = "v\<lparr>items := (items v)\<lparr>raw_ptr := Some (length h)\<rparr>, capacity := n\<rparr>"
  let ?h = "case raw_ptr (items v) of None \<Rightarrow> h @ [Live ?blk]
            | Some a \<Rightarrow> (h @ [Live ?blk])[a := Freed]"
  note s = vec_inv_slots [OF assms]
  note r = realloc_heap [OF assms, where blk = ?blk]
  have p: "raw_ptr (items ?v) = Some (length h)" by simp
  have l: "length ?blk = capacity ?v" using s(1,4) n by simp
  have t: "take (size_v ?v) ?blk = map Obj (elems h v)" using s(4) by simp
  have sz: "size_v ?v \<le> capacity ?v" using s(1) n by simp
  note i = vec_invI [OF p r(1) l sz t]
  have "slots_of ?h ?v = ?blk" using p r(1) by (rule slots_of_Some)
  then have "length (slots_of ?h ?v) = n" using l by simp
  then show "\<exists>v' h'. Reserve h v n = Inr (v', h') \<and> capacity v' = n \<and> size_v v' = size_v v \<and>
               elems h' v' = elems h v \<and> vec_inv h' v' \<and>
               raw_ptr (items v') = Some (length h) \<and> length (slots_of h' v') = n \<and>
               (\<forall>a. raw_ptr (items v) = Some a \<longrightarrow> cell_at h' a = Freed)"
    using Reserve_grow [OF assms n] i r(2) by (intro exI [of _ ?v] exI [of _ ?h]) simp
next
  assume "n \<le> capacity v"
  then show "Reserve h v n = Inr (v, h)" by (simp add: Reserve_def)
next
  fix v' h'
  assume r: "Reserve h v n = Inr (v', h')"
  show "capacity v \<le> capacity v'"
  proof (cases "capacity v < n")
    case True
    then show ?thesis using Reserve_grow [OF assms True] r by auto
  next
    case False
    then show ?thesis using r by (simp add: Reserve_def)
  qed
qed

theorem Reserve_spec_witness:
  "vec_inv [Live [Obj (1::int), Obj 2, Uninit]] \<lparr>items = \<lparr>raw_ptr = Some 0\<rparr>, size_v = 2, capacity = 3\<rparr> \<and>
   (\<exists>v' h'. Reserve [Live [Obj (1::int), Obj 2, Uninit]]
               \<lparr>items = \<lparr>raw_ptr = Some 0\<rparr>, size_v = 2, capacity = 3\<rparr> 5 = Inr (v', h') \<and>
             capacity v' = 5 \<and> size_v v' = 2 \<and> elems h' v' = [1, 2] \<and>
             raw_ptr (items v') = Some 1 \<and> cell_at h' 0 = Freed) \<and>
   Reserve [Live [Obj (1::int), Obj 2, Uninit]]
     \<lparr>items = \<lparr>raw_ptr = Some 0\<rparr>, size_v = 2, capacity = 3\<rparr> 3 =
     Inr (\<lparr>items = \<lparr>raw_ptr = Some 0\<rparr>, size_v = 2, capacity = 3\<rparr>, [Live [Obj 1, Obj 2, Uninit]])"
proof -
  let ?h = "[Live [Obj (1::int), Obj 2, Uninit]]"
  let ?v = "\<lparr>items = \<lparr>raw_ptr = Some 0\<rparr>, size_v = 2, capacity = 3\<rparr>"
  have inv: "vec_inv ?h ?v"
    by (simp add: vec_inv_def cell_at_def constructed_def)
  have e: "elems ?h ?v = [1, 2]"
    by (simp add: elems_def slots_of_def cell_at_def)
  show ?thesis
    using inv e Reserve_spec [OF inv, of 5] Reserve_spec [OF inv, of 3] by auto
qed



section \<open>Resize\<close>

lemma elems_shrink:
  assumes "vec_inv h v" and "n \<le> size_v v"
  shows "elems h (v\<lparr>size_v := n\<rparr>) = take n (elems h v)" and "vec_inv h (v\<lparr>size_v := n\<rparr>)"
proof -
  note s = vec_inv_slots [OF assms(1)]
  have sl: "slots_of h (v\<lparr>size_v := n\<rparr>) = slots_of h v" by (simp add: slots_of_def)
  have "take n (slots_of h v) = take n (take (size_v v) (slots_of h v))"
    using assms(2) by (simp add: min_absorb1)
  then have t: "take n (slots_of h v) = map Obj (take n (elems h v))"
    by (simp add: s(3) take_map)
  show "elems h (v\<lparr>size_v := n\<rparr>) = take n (elems h v)"
    by (simp add: elems_def sl t objs_map_Obj)
  show "vec_inv h (v\<lparr>size_v := n\<rparr>)"
  proof (cases "raw_ptr (items v)")
    case None
    then show ?thesis using assms vec_inv_None(1,2) [OF assms(1)] by (simp add: vec_inv_def)
  next
    case (Some a)
    have c: "cell_at h a = Live (slots_of h v)" using assms(1) Some by (rule vec_inv_Some)
    show ?thesis
      using Some c s(1,2) assms(2) t
      by (intro vec_invI(1) [where a = a and b = "slots_of h v" and xs = "take n (elems h v)"]) simp_all
  qed
qed

lemma Resize_within:
  assumes inv: "vec_inv h v" and n: "size_v v < n" "n \<le> capacity v"
  shows "\<exists>h'. Resize h v n dflt = Inr (v\<lparr>size_v := n\<rparr>, h') \<and>
           elems h' (v\<lparr>size_v := n\<rparr>) = elems h v @ replicate (n - size_v v) dflt \<and>
           vec_inv h' (v\<lparr>size_v := n\<rparr>) \<and> length h' = length h \<and>
           length (slots_of h' (v\<lparr>size_v := n\<rparr>)) = capacity v"
proof -
  note s = vec_inv_slots [OF inv]
  obtain a where a: "raw_ptr (items v) = Some a"
    using vec_inv_None(1) [OF inv] n by (cases "raw_ptr (items v)") auto
  let ?b = "slots_of h v"
  let ?b' = "take (size_v v) ?b @ replicate (n - size_v v) (Obj dflt) @ drop (size_v v + (n - size_v v)) ?b"
  let ?h = "h[a := Live ?b']"
  let ?v = "v\<lparr>size_v := n\<rparr>"
  have c: "cell_at h a = Live ?b" using inv a by (rule vec_inv_Some)
  have al: "a < length h" using inv a by (rule vec_inv_Some)
  have "fill_loop (n - size_v v) h (Ptr (Some a) (size_v v)) dflt = Inr ?h"
    using c n s(2) by (intro fill_loop_Live) simp_all
  then have g: "std_generate h (end_v v) (ArrayPtr_index (items v) n) dflt = Inr ?h"
    using n a by (simp add: std_generate_def std_fill_def vec_ptrs std_distance_Ptr)
  have r: "Resize h v n dflt = Inr (?v, ?h)"
    using n g by (simp add: Resize_def)
  have c': "cell_at ?h a = Live ?b'" using al by (simp add: cell_at_update)
  have l: "length ?b' = capacity ?v" using n s(1,2) by simp
  have t: "take (size_v ?v) ?b' = map Obj (elems h v @ replicate (n - size_v v) dflt)"
    using n s by simp
  have p: "raw_ptr (items ?v) = Some a" using a by simp
  have sz: "size_v ?v \<le> capacity ?v" using n by simp
  note i = vec_invI [OF p c' l sz t]
  have "slots_of ?h ?v = ?b'" using p c' by (rule slots_of_Some)
  then have "length (slots_of ?h ?v) = capacity v" using l by simp
  then show ?thesis using r i by (intro exI [of _ ?h]) simp
qed

lemma Resize_grow:
  assumes inv: "vec_inv h v" and n: "capacity v < n"
  shows "Resize h v n dflt =
           Inr (v\<lparr>items := (items v)\<lparr>raw_ptr := Some (length h)\<rparr>, size_v := n,
                  capacity := max (capacity v * 2) n\<rparr>,
                (case raw_ptr (items v) of
                   None \<Rightarrow> h @ [Live (map Obj (elems h v) @ replicate (n - size_v v) (Obj dflt))]
                 | Some a \<Rightarrow>
                     (h @ [Live (map Obj (elems h v) @ replicate (n - size_v v) (Obj dflt))])[a := Freed]))"
proof -
  let ?d = "length h"
  let ?h1 = "h @ [Live (replicate n Uninit)]"
  let ?blk = "map Obj (elems h v) @ replicate (n - size_v v) Uninit"
  let ?h2 = "h @ [Live ?blk]"
  let ?blk' = "map Obj (elems h v) @ replicate (n - size_v v) (Obj dflt)"
  let ?h3 = "h @ [Live ?blk']"
  note nf = vec_inv_not_fresh [OF inv]
  note f = vec_inv_fresh [OF inv, of "Live (replicate n Uninit)"]
  note s = vec_inv_slots [OF inv]
  have al: "ArrayPtr_sized h n = (\<lparr>raw_ptr = Some ?d\<rparr>, ?h1)"
    using n by (simp add: ArrayPtr_sized_pos)
  have "copy_loop (size_v v) ?h1 (Ptr (raw_ptr (items v)) 0) (Ptr (Some ?d) 0) =
          Inr (?h1[?d := Live (take 0 (replicate n Uninit) @ map Obj (take (size_v v) (drop 0 (elems ?h1 v)))
                 @ drop (0 + size_v v) (replicate n Uninit))])"
    using nf f(1) s(1) n by (intro copy_loop_from_vec) (simp_all add: cell_at_append)
  then have mv: "std_move ?h1 (begin_v v) (end_v v) (Ptr (Some ?d) 0) = Inr ?h2"
    using s(4) by (simp add: std_move_def std_copy_def vec_ptrs std_distance_Ptr f(2))
  have "fill_loop (n - size_v v) ?h2 (Ptr (Some ?d) (size_v v)) dflt =
          Inr (?h2[?d := Live (take (size_v v) ?blk @ replicate (n - size_v v) (Obj dflt)
                 @ drop (size_v v + (n - size_v v)) ?blk)])"
    using s(1,4) n by (intro fill_loop_Live) (simp_all add: cell_at_append)
  then have g: "std_generate ?h2 (Ptr (Some ?d) (size_v v)) (Ptr (Some ?d) n) dflt = Inr ?h3"
    using s(1,4) n by (simp add: std_generate_def std_fill_def std_distance_Ptr)
  have "\<And>a. raw_ptr (items v) = Some a \<Longrightarrow> cell_at ?h3 a = cell_at h a"
    using nf by (simp add: cell_at_append)
  then have del: "delete_array ?h3 (raw_ptr (items v)) =
      Inr (case raw_ptr (items v) of None \<Rightarrow> ?h3 | Some a \<Rightarrow> ?h3[a := Freed])"
    by (rule delete_vec_block [OF inv])
  show ?thesis
    using n s(1) al mv g del
    by (simp add: Resize_def vec_ptrs ArrayPtr_swap_eq ArrayPtr_dtor_def)
qed

text \<open>
  C4. For a vector that satisfies the invariant and every \<open>n\<close>, \<open>Resize\<close> returns
  normally and: if \<open>n\<close> is at most the size, only the size changes, to \<open>n\<close>, and the
  contents are the first \<open>n\<close> elements; if \<open>n\<close> is above the size and at most the
  capacity, the slots from the old size up to \<open>n\<close> receive \<^verbatim>\<open>Type{}\<close>, the size
  becomes \<open>n\<close>, and handle, capacity and number of blocks in the heap are unchanged; if
  \<open>n\<close> exceeds the capacity, a fresh block of exactly \<open>n\<close> slots receives the old
  elements followed by \<^verbatim>\<open>Type{}\<close> in the remaining slots, the old block is freed,
  the size becomes \<open>n\<close> and the capacity \<open>max (capacity * 2) n\<close>.
\<close>

theorem Resize_spec:
  assumes "vec_inv h v"
  shows "(n \<le> size_v v \<longrightarrow>
            Resize h v n dflt = Inr (v\<lparr>size_v := n\<rparr>, h) \<and>
            elems h (v\<lparr>size_v := n\<rparr>) = take n (elems h v)) \<and>
         (size_v v < n \<and> n \<le> capacity v \<longrightarrow>
            (\<exists>h'. Resize h v n dflt = Inr (v\<lparr>size_v := n\<rparr>, h') \<and>
               elems h' (v\<lparr>size_v := n\<rparr>) = elems h v @ replicate (n - size_v v) dflt \<and>
               length h' = length h \<and>
               length (slots_of h' (v\<lparr>size_v := n\<rparr>)) = capacity v)) \<and>
         (capacity v < n \<longrightarrow>
            (\<exists>v' h'. Resize h v n dflt = Inr (v', h') \<and> size_v v' = n \<and>
               capacity v' = max (capacity v * 2) n \<and>
               raw_ptr (items v') = Some (length h) \<and> length (slots_of h' v') = n \<and>
               elems h' v' = elems h v @ replicate (n - size_v v) dflt \<and>
               (\<forall>a. raw_ptr (items v) = Some a \<longrightarrow> cell_at h' a = Freed)))"
proof (intro conjI impI)
  assume "n \<le> size_v v"
  then show "Resize h v n dflt = Inr (v\<lparr>size_v := n\<rparr>, h)" by (simp add: Resize_def)
next
  assume "n \<le> size_v v"
  then show "elems h (v\<lparr>size_v := n\<rparr>) = take n (elems h v)"
    using assms by (intro elems_shrink)
next
  assume "size_v v < n \<and> n \<le> capacity v"
  then show "\<exists>h'. Resize h v n dflt = Inr (v\<lparr>size_v := n\<rparr>, h') \<and>
               elems h' (v\<lparr>size_v := n\<rparr>) = elems h v @ replicate (n - size_v v) dflt \<and>
               length h' = length h \<and>
               length (slots_of h' (v\<lparr>size_v := n\<rparr>)) = capacity v"
    using Resize_within [OF assms, of n dflt] by blast
next
  assume n: "capacity v < n"
  let ?blk = "map Obj (elems h v) @ replicate (n - size_v v) (Obj dflt)"
  let ?v = "v\<lparr>items := (items v)\<lparr>raw_ptr := Some (length h)\<rparr>, size_v := n,
              capacity := max (capacity v * 2) n\<rparr>"
  let ?h = "case raw_ptr (items v) of None \<Rightarrow> h @ [Live ?blk]
            | Some a \<Rightarrow> (h @ [Live ?blk])[a := Freed]"
  note s = vec_inv_slots [OF assms]
  note r = realloc_heap [OF assms, where blk = ?blk]
  have p: "raw_ptr (items ?v) = Some (length h)" by simp
  have sl: "slots_of ?h ?v = ?blk" using p r(1) by (rule slots_of_Some)
  have l: "length ?blk = n" using s(1,4) n by simp
  have "take n ?blk = map Obj (elems h v @ replicate (n - size_v v) dflt)"
    using l by simp
  then have e: "elems ?h ?v = elems h v @ replicate (n - size_v v) dflt"
    by (simp add: elems_def sl objs_map_Obj del: map_append)
  show "\<exists>v' h'. Resize h v n dflt = Inr (v', h') \<and> size_v v' = n \<and>
               capacity v' = max (capacity v * 2) n \<and>
               raw_ptr (items v') = Some (length h) \<and> length (slots_of h' v') = n \<and>
               elems h' v' = elems h v @ replicate (n - size_v v) dflt \<and>
               (\<forall>a. raw_ptr (items v) = Some a \<longrightarrow> cell_at h' a = Freed)"
    using Resize_grow [OF assms n, of dflt] e sl l r(2)
    by (intro exI [of _ ?v] exI [of _ ?h]) simp
qed


theorem Resize_spec_witness:
  "vec_inv [Live [Obj (1::int), Obj 2, Uninit]]
     \<lparr>items = \<lparr>raw_ptr = Some 0\<rparr>, size_v = 2, capacity = 3\<rparr> \<and>
   Resize [Live [Obj (1::int), Obj 2, Uninit]]
     \<lparr>items = \<lparr>raw_ptr = Some 0\<rparr>, size_v = 2, capacity = 3\<rparr> 1 0 =
     Inr (\<lparr>items = \<lparr>raw_ptr = Some 0\<rparr>, size_v = 1, capacity = 3\<rparr>, [Live [Obj 1, Obj 2, Uninit]]) \<and>
   (\<exists>h'. Resize [Live [Obj (1::int), Obj 2, Uninit]]
            \<lparr>items = \<lparr>raw_ptr = Some 0\<rparr>, size_v = 2, capacity = 3\<rparr> 3 0 =
            Inr (\<lparr>items = \<lparr>raw_ptr = Some 0\<rparr>, size_v = 3, capacity = 3\<rparr>, h') \<and>
          elems h' \<lparr>items = \<lparr>raw_ptr = Some 0\<rparr>, size_v = 3, capacity = 3\<rparr> = [1, 2, 0]) \<and>
   (\<exists>v' h'. Resize [Live [Obj (1::int), Obj 2, Uninit]]
               \<lparr>items = \<lparr>raw_ptr = Some 0\<rparr>, size_v = 2, capacity = 3\<rparr> 4 0 = Inr (v', h') \<and>
             size_v v' = 4 \<and> capacity v' = 6 \<and> length (slots_of h' v') = 4 \<and>
             elems h' v' = [1, 2, 0, 0])"
proof -
  let ?h = "[Live [Obj (1::int), Obj 2, Uninit]]"
  let ?v = "\<lparr>items = \<lparr>raw_ptr = Some 0\<rparr>, size_v = 2, capacity = 3\<rparr>"
  have inv: "vec_inv ?h ?v"
    by (simp add: vec_inv_def cell_at_def constructed_def)
  have e: "elems ?h ?v = [1, 2]"
    by (simp add: elems_def slots_of_def cell_at_def)
  have r: "replicate 2 (0::int) = [0, 0]"
    by (simp add: numeral_2_eq_2)
  show ?thesis
    using inv e r Resize_spec [OF inv, of 1 0] Resize_spec [OF inv, of 3 0]
      Resize_spec [OF inv, of 4 0]
    by auto
qed

text \<open>
  C3. The claim: every public operation preserves the invariant, in particular that the
  block really has \<open>capacity\<close> slots. \<open>Resize\<close> does not: the vector built by
  \<^verbatim>\<open>SimpleVector<int> v(2)\<close> satisfies the invariant, and after \<^verbatim>\<open>v.Resize(3)\<close>
  its block has three slots while its capacity is four. The next \<^verbatim>\<open>PushBack\<close>
  takes the branch for spare capacity and writes past the end of the block.
\<close>

theorem Resize_breaks_invariant:
  "SimpleVector_sized ([] :: int heap) 2 0 =
     Inr (\<lparr>items = \<lparr>raw_ptr = Some 0\<rparr>, size_v = 2, capacity = 2\<rparr>, [Live [Obj 0, Obj 0]]) \<and>
   vec_inv [Live [Obj (0::int), Obj 0]] \<lparr>items = \<lparr>raw_ptr = Some 0\<rparr>, size_v = 2, capacity = 2\<rparr> \<and>
   Resize [Live [Obj (0::int), Obj 0]] \<lparr>items = \<lparr>raw_ptr = Some 0\<rparr>, size_v = 2, capacity = 2\<rparr> 3 0 =
     Inr (\<lparr>items = \<lparr>raw_ptr = Some 1\<rparr>, size_v = 3, capacity = 4\<rparr>,
          [Freed, Live [Obj 0, Obj 0, Obj 0]]) \<and>
   length (slots_of [Freed, Live [Obj (0::int), Obj 0, Obj 0]]
             \<lparr>items = \<lparr>raw_ptr = Some 1\<rparr>, size_v = 3, capacity = 4\<rparr>) = 3 \<and>
   \<not> vec_inv [Freed, Live [Obj (0::int), Obj 0, Obj 0]]
           \<lparr>items = \<lparr>raw_ptr = Some 1\<rparr>, size_v = 3, capacity = 4\<rparr> \<and>
   PushBack [Freed, Live [Obj (0::int), Obj 0, Obj 0]]
     \<lparr>items = \<lparr>raw_ptr = Some 1\<rparr>, size_v = 3, capacity = 4\<rparr> (Outside 7) =
     Inl undefined_behaviour"
  by code_simp


section \<open>Insert\<close>

lemma vec_segment:
  assumes "vec_inv h v" and "i + n \<le> size_v v"
  shows "take n (drop i (slots_of h v)) = map Obj (take n (drop i (elems h v)))"
proof -
  note s = vec_inv_slots [OF assms(1)]
  have "take n (drop i (slots_of h v)) = take n (drop i (take (size_v v) (slots_of h v)))"
    using assms(2) by (simp add: drop_take)
  then show ?thesis by (simp add: s(3) take_map drop_map)
qed

lemma take_length_append: "length xs = n \<Longrightarrow> take n (xs @ ys) = xs"
  by simp

lemma load_elem:
  assumes "vec_inv h v" and "i < size_v v"
  shows "load h (Ptr (raw_ptr (items v)) i) = Inr (elems h v ! i)"
proof -
  note s = vec_inv_slots [OF assms(1)]
  obtain a where a: "raw_ptr (items v) = Some a"
    using vec_inv_None(2) [OF assms(1)] assms(2) by (cases "raw_ptr (items v)") auto
  have c: "cell_at h a = Live (slots_of h v)" using assms(1) a by (rule vec_inv_Some)
  have "slots_of h v ! i = take (size_v v) (slots_of h v) ! i" using assms(2) by simp
  then have "slots_of h v ! i = Obj (elems h v ! i)" using assms(2) s(3,4) by simp
  then show ?thesis using a c assms(2) s(1,2) by (simp add: load_Live)
qed


lemma load_fresh:
  assumes "load h p = Inr x"
  shows "load (h @ [c]) p = Inr x"
proof -
  obtain a where a: "base p = Some a"
    using assms by (cases "base p") (simp_all add: load_def)
  have "cell_at h a \<noteq> Freed" using assms a by (auto simp: load_def)
  then have "a < length h" by (simp add: cell_at_def split: if_splits)
  then have "cell_at (h @ [c]) a = cell_at h a" by (simp add: cell_at_append)
  then show ?thesis using assms a by (simp add: load_def)
qed

lemma deref_fresh: "deref h r = Inr x \<Longrightarrow> deref (h @ [c]) r = Inr x"
  by (cases r) (simp_all add: deref_def load_fresh)

lemma deref_update_other:
  "(\<And>j. r \<noteq> Inside (Ptr (Some a) j)) \<Longrightarrow> deref (h[a := c]) r = deref h r"
proof (cases r)
  case (Outside v)
  then show ?thesis by (simp add: deref_def)
next
  case (Inside p)
  assume n: "\<And>j. r \<noteq> Inside (Ptr (Some a) j)"
  obtain bs j where p: "p = Ptr bs j" by (cases p)
  then have "bs \<noteq> Some a" using n Inside by auto
  then show ?thesis using Inside p
    by (simp add: deref_def load_def cell_at_update split: option.splits)
qed

text \<open>The block after the elements from \<open>k\<close> up to \<open>n\<close> went one slot to the right.\<close>

lemma shifted_length:
  assumes "k \<le> n" and "n < length b"
  shows "length (take (Suc k) b @ take (n - k) (drop k b) @ drop (Suc n) b) = length b"
  using assms by simp

lemma shifted_nth:
  assumes "k \<le> n" and "n < length b" and "j < length b"
  shows "(take (Suc k) b @ take (n - k) (drop k b) @ drop (Suc n) b) ! j =
           (if k < j \<and> j \<le> n then b ! (j - 1) else b ! j)"
proof -
  consider "j \<le> k" | "k < j \<and> j \<le> n" | "n < j" by linarith
  then show ?thesis
  proof cases
    case 1
    then show ?thesis using assms by (simp add: nth_append)
  next
    case 2
    have ar: "j - Suc k < n - k" "k + (j - Suc k) = j - 1" "k + (j - Suc k) < length b"
      using 2 assms by linarith+
    then have "(take (n - k) (drop k b)) ! (j - Suc k) = b ! (j - 1)"
      by simp
    then show ?thesis using 2 assms ar(1) by (simp add: nth_append min_absorb2)
  next
    case 3
    then have "(drop (Suc n) b) ! (j - Suc n) = b ! j" using assms by simp
    moreover have "j - Suc k - (n - k) = j - Suc n" and "\<not> j - Suc k < n - k"
      using 3 assms by linarith+
    ultimately show ?thesis using 3 assms by (simp add: nth_append min_absorb2)
  qed
qed

lemma Insert_gap:
  assumes inv: "vec_inv h v" and k: "k \<le> size_v v" and g: "size_v v < capacity v"
    and a: "raw_ptr (items v) = Some a"
    and d: "deref (h[a := Live (take (Suc k) (slots_of h v) @
                     take (size_v v - k) (drop k (slots_of h v)) @
                     drop (Suc (size_v v)) (slots_of h v))]) value = Inr y"
  shows "Insert h v (Ptr (Some a) k) value =
           Inr (Ptr (Some a) k, v\<lparr>size_v := size_v v + 1\<rparr>,
                h[a := Live (map Obj (take k (elems h v) @ y # drop k (elems h v))
                             @ drop (size_v v + 1) (slots_of h v))])"
proof -
  let ?b = "slots_of h v"
  let ?xs = "elems h v"
  let ?n = "size_v v"
  note s = vec_inv_slots [OF inv]
  have c: "cell_at h a = Live ?b" using inv a by (rule vec_inv_Some)
  have al: "a < length h" using inv a by (rule vec_inv_Some)
  have pre: "take k ?b = map Obj (take k ?xs)"
    using vec_segment [OF inv, of 0 k] k by simp
  have post: "take (?n - k) (drop k ?b) = map Obj (drop k ?xs)"
    using vec_segment [OF inv, of k "?n - k"] k s(4) by simp
  let ?b1 = "take (Suc k) ?b @ take (?n - k) (drop k ?b) @ drop (Suc ?n) ?b"
  let ?h1 = "h[a := Live ?b1]"
  have "copy_backward_loop (?n - k) h (Ptr (Some a) ?n) (Ptr (Some a) (?n + 1)) =
          Inr (h[a := Live (take (?n + 1 - (?n - k)) ?b @ take (?n - k) (drop (?n - (?n - k)) ?b)
                 @ drop (?n + 1) ?b)])"
    using c k g s(2) post
    by (intro copy_backward_loop_right) (simp_all add: list_all_constructed_map_Obj)
  then have cb: "std_copy_backward h (Ptr (Some a) k) (cend v) (ptr_add (end_v v) 1) = Inr ?h1"
    using k a by (simp add: std_copy_backward_def vec_ptrs std_distance_Ptr ptr_add_Ptr Suc_diff_le)
  have kb: "k < length ?b" using k g s(2) by simp
  have b1: "?b1 = map Obj (take k ?xs) @ ?b ! k # map Obj (drop k ?xs) @ drop (?n + 1) ?b"
    using k kb pre post by (simp add: take_Suc_conv_app_nth)
  have lk: "length (map Obj (take k ?xs)) = k" using k s(4) by simp
  have c1: "cell_at ?h1 a = Live ?b1" using al by (simp add: cell_at_update)
  have "k < length ?b1" using k g s(2,4) by (simp add: b1)
  then have st: "store ?h1 (Ptr (Some a) k) y = Inr (?h1[a := Live (?b1[k := Obj y])])"
    using c1 by (simp add: store_Live)
  have "?b1[k := Obj y] = map Obj (take k ?xs) @ Obj y # map Obj (drop k ?xs) @ drop (?n + 1) ?b"
    unfolding b1 using lk by (metis list_update_length)
  then have b2: "?b1[k := Obj y] = map Obj (take k ?xs @ y # drop k ?xs) @ drop (?n + 1) ?b"
    by simp
  show ?thesis
    using g k a cb d st b2
    by (simp add: Insert_def vec_ptrs std_distance_Ptr)
qed

lemma deref_shifted:
  assumes inv: "vec_inv h v" and k: "k \<le> size_v v" and g: "size_v v < capacity v"
    and a: "raw_ptr (items v) = Some a"
  shows "k < j \<Longrightarrow> j \<le> size_v v \<Longrightarrow>
           deref (h[a := Live (take (Suc k) (slots_of h v) @
                     take (size_v v - k) (drop k (slots_of h v)) @
                     drop (Suc (size_v v)) (slots_of h v))]) (Inside (Ptr (Some a) j)) =
             Inr (elems h v ! (j - 1))"
    and "deref h value = Inr x \<Longrightarrow>
         (\<And>j. value = Inside (Ptr (Some a) j) \<Longrightarrow> j \<le> k \<or> size_v v < j) \<Longrightarrow>
           deref (h[a := Live (take (Suc k) (slots_of h v) @
                     take (size_v v - k) (drop k (slots_of h v)) @
                     drop (Suc (size_v v)) (slots_of h v))]) value = Inr x"
proof -
  let ?b = "slots_of h v"
  let ?n = "size_v v"
  let ?b1 = "take (Suc k) ?b @ take (?n - k) (drop k ?b) @ drop (Suc ?n) ?b"
  note s = vec_inv_slots [OF inv]
  have c: "cell_at h a = Live ?b" using inv a by (rule vec_inv_Some)
  have al: "a < length h" using inv a by (rule vec_inv_Some)
  have nb: "?n < length ?b" using g s(2) by simp
  have c1: "cell_at (h[a := Live ?b1]) a = Live ?b1" using al by (simp add: cell_at_update)
  have l1: "length ?b1 = length ?b" using k nb by (rule shifted_length)
  {
    assume j: "k < j" "j \<le> ?n"
    have "?b ! (j - 1) = take ?n ?b ! (j - 1)" using j by simp
    then have e: "?b ! (j - 1) = Obj (elems h v ! (j - 1))" using j s(3,4) by simp
    have "?b1 ! j = ?b ! (j - 1)" using shifted_nth [OF k nb, of j] j nb by simp
    then show "deref (h[a := Live ?b1]) (Inside (Ptr (Some a) j)) = Inr (elems h v ! (j - 1))"
      using e j nb l1 by (simp add: deref_def load_Live [OF c1])
  }
  {
    assume d: "deref h value = Inr x"
      and na: "\<And>j. value = Inside (Ptr (Some a) j) \<Longrightarrow> j \<le> k \<or> ?n < j"
    show "deref (h[a := Live ?b1]) value = Inr x"
    proof (cases "\<exists>j. value = Inside (Ptr (Some a) j)")
      case True
      then obtain j where v: "value = Inside (Ptr (Some a) j)" by blast
      have jk: "j \<le> k \<or> ?n < j" using na v by blast
      have ld: "load h (Ptr (Some a) j) = Inr x" using d v by (simp add: deref_def)
      then have jl: "j < length ?b" by (simp add: load_Live [OF c] split: if_splits)
      have "?b1 ! j = ?b ! j" using shifted_nth [OF k nb jl] jk by auto
      then show ?thesis using ld jl l1 v by (simp add: deref_def load_Live [OF c1] load_Live [OF c])
    next
      case False
      then show ?thesis using d deref_update_other [of "value" a h] by simp
    qed
  }
qed


lemma Insert_grow:
  assumes inv: "vec_inv h v" and k: "k \<le> size_v v" and g: "\<not> size_v v < capacity v"
    and d: "deref h value = Inr x"
  shows "Insert h v (Ptr (raw_ptr (items v)) k) value =
           Inr (Ptr (Some (length h)) k,
                v\<lparr>items := (items v)\<lparr>raw_ptr := Some (length h)\<rparr>, size_v := size_v v + 1,
                  capacity := max (size_v v + 1) (capacity v * 2)\<rparr>,
                (case raw_ptr (items v) of
                   None \<Rightarrow>
                     h @ [Live (map Obj (take k (elems h v) @ x # drop k (elems h v)) @
                                replicate (max (size_v v + 1) (capacity v * 2) - (size_v v + 1)) Uninit)]
                 | Some a \<Rightarrow>
                     (h @ [Live (map Obj (take k (elems h v) @ x # drop k (elems h v)) @
                                 replicate (max (size_v v + 1) (capacity v * 2) - (size_v v + 1)) Uninit)])
                       [a := Freed]))"
proof -
  let ?d = "length h"
  let ?xs = "elems h v"
  let ?n = "size_v v"
  let ?cn = "max (size_v v + 1) (capacity v * 2)"
  let ?h1 = "h @ [Live (replicate ?cn Uninit)]"
  let ?blk2 = "map Obj (take k ?xs) @ replicate (?cn - k) Uninit"
  let ?h2 = "h @ [Live ?blk2]"
  let ?blk3 = "map Obj (take k ?xs) @ Obj x # replicate (?cn - Suc k) Uninit"
  let ?h3 = "h @ [Live ?blk3]"
  let ?blk4 = "map Obj (take k ?xs @ x # drop k ?xs) @ replicate (?cn - (?n + 1)) Uninit"
  let ?h4 = "h @ [Live ?blk4]"
  note nf = vec_inv_not_fresh [OF inv]
  note f = vec_inv_fresh [OF inv]
  note s = vec_inv_slots [OF inv]
  have lk: "length (take k ?xs) = k" using k s(4) by simp
  have al: "ArrayPtr_sized h ?cn = (\<lparr>raw_ptr = Some ?d\<rparr>, ?h1)"
    by (simp add: ArrayPtr_sized_pos)
  have "copy_loop k ?h1 (Ptr (raw_ptr (items v)) 0) (Ptr (Some ?d) 0) =
          Inr (?h1[?d := Live (take 0 (replicate ?cn Uninit) @ map Obj (take k (drop 0 (elems ?h1 v)))
                 @ drop (0 + k) (replicate ?cn Uninit))])"
    using nf f(1) k by (intro copy_loop_from_vec) (simp_all add: cell_at_append)
  then have m1: "std_move ?h1 (Ptr (raw_ptr (items v)) 0) (Ptr (raw_ptr (items v)) k) (Ptr (Some ?d) 0) = Inr ?h2"
    by (simp add: std_move_def std_copy_def std_distance_Ptr f(2))
  have rd: "deref ?h2 value = Inr x" using d by (rule deref_fresh)
  have "?blk2[k := Obj x] = map Obj (take k ?xs) @ (replicate (?cn - k) Uninit)[0 := Obj x]"
    using lk by (simp add: list_update_append)
  also have "(replicate (?cn - k) Uninit)[0 := Obj x] = Obj x # replicate (?cn - Suc k) Uninit"
    using k by (cases "?cn - k") simp_all
  finally have u: "?blk2[k := Obj x] = ?blk3" .
  have st: "store ?h2 (Ptr (Some ?d) k) x = Inr ?h3"
    using k lk u by (simp add: store_Live [where b = ?blk2] cell_at_append)
  have "copy_loop (?n - k) ?h3 (Ptr (raw_ptr (items v)) k) (Ptr (Some ?d) (k + 1)) =
          Inr (?h3[?d := Live (take (k + 1) ?blk3 @ map Obj (take (?n - k) (drop k (elems ?h3 v)))
                 @ drop (k + 1 + (?n - k)) ?blk3)])"
    using nf f(1) k lk by (intro copy_loop_from_vec) (simp_all add: cell_at_append)
  moreover have "take (k + 1) ?blk3 = map Obj (take k ?xs) @ [Obj x]"
    using lk by simp
  moreover have "drop (k + 1 + (?n - k)) ?blk3 = replicate (?cn - (?n + 1)) Uninit"
    using lk k by (simp add: Suc_diff_le)
  moreover have "take (?n - k) (drop k ?xs) = drop k ?xs"
    using s(4) by simp
  ultimately have m2: "std_move ?h3 (Ptr (raw_ptr (items v)) k) (Ptr (raw_ptr (items v)) ?n) (Ptr (Some ?d) (Suc k)) = Inr ?h4"
    using k by (simp add: std_move_def std_copy_def std_distance_Ptr f(2))
  have "\<And>a. raw_ptr (items v) = Some a \<Longrightarrow> cell_at ?h4 a = cell_at h a"
    using nf by (simp add: cell_at_append)
  then have del: "delete_array ?h4 (raw_ptr (items v)) =
      Inr (case raw_ptr (items v) of None \<Rightarrow> ?h4 | Some a \<Rightarrow> ?h4[a := Freed])"
    by (rule delete_vec_block [OF inv])
  show ?thesis
    using g k al m1 rd st m2 del
    by (simp add: Insert_def Let_def vec_ptrs std_distance_Ptr ptr_add_Ptr ArrayPtr_swap_eq ArrayPtr_dtor_def)
qed

lemma Insert_move_eq: "Insert_move h v pos value = Insert h v pos value"
  unfolding Insert_move_def Insert_def std_move_backward_def begin_v_def cbegin_def
    end_v_def cend_def ..

text \<open>
  What \<open>Insert\<close> does once the value it assigns is known: \<open>y\<close> is the value read from
  the parameter at the point of the assignment.
\<close>

lemma Insert_assigned:
  assumes inv: "vec_inv h v" and k: "k \<le> size_v v"
    and gap: "size_v v < capacity v \<Longrightarrow>
      deref (case raw_ptr (items v) of None \<Rightarrow> h
             | Some a \<Rightarrow> h[a := Live (take (Suc k) (slots_of h v) @
                     take (size_v v - k) (drop k (slots_of h v)) @
                     drop (Suc (size_v v)) (slots_of h v))]) value = Inr y"
    and grow: "\<not> size_v v < capacity v \<Longrightarrow> deref h value = Inr y"
  shows "\<exists>v' h'. Insert h v (Ptr (raw_ptr (items v)) k) value = Inr (Ptr (raw_ptr (items v')) k, v', h') \<and>
           Insert_move h v (Ptr (raw_ptr (items v)) k) value = Inr (Ptr (raw_ptr (items v')) k, v', h') \<and>
           size_v v' = size_v v + 1 \<and>
           elems h' v' = take k (elems h v) @ y # drop k (elems h v) \<and>
           load h' (Ptr (raw_ptr (items v')) k) = Inr y \<and>
           vec_inv h' v' \<and>
           (size_v v < capacity v \<longrightarrow>
              capacity v' = capacity v \<and> items v' = items v \<and> length h' = length h) \<and>
           (size_v v = capacity v \<longrightarrow>
              capacity v' = max (size_v v + 1) (capacity v * 2) \<and>
              raw_ptr (items v') = Some (length h) \<and>
              length (slots_of h' v') = max (size_v v + 1) (capacity v * 2) \<and>
              (\<forall>a. raw_ptr (items v) = Some a \<longrightarrow> cell_at h' a = Freed))"
proof -
  let ?ys = "take k (elems h v) @ y # drop k (elems h v)"
  note s = vec_inv_slots [OF inv]
  have ly: "length ?ys = size_v v + 1" using k s(4) by simp
  have yk: "?ys ! k = y" using k s(4) by (simp add: nth_append)
  show ?thesis
  proof (cases "size_v v < capacity v")
    case True
    obtain a where a: "raw_ptr (items v) = Some a"
      using vec_inv_None(1) [OF inv] True by (cases "raw_ptr (items v)") auto
    let ?blk = "map Obj ?ys @ drop (size_v v + 1) (slots_of h v)"
    let ?v = "v\<lparr>size_v := size_v v + 1\<rparr>"
    let ?h = "h[a := Live ?blk]"
    have d: "deref (h[a := Live (take (Suc k) (slots_of h v) @
                     take (size_v v - k) (drop k (slots_of h v)) @
                     drop (Suc (size_v v)) (slots_of h v))]) value = Inr y"
      using gap [OF True] a by simp
    have al: "a < length h" using inv a by (rule vec_inv_Some)
    have p: "raw_ptr (items ?v) = Some a" using a by simp
    have c: "cell_at ?h a = Live ?blk" using al by (simp add: cell_at_update)
    have l: "length ?blk = capacity ?v" using True ly s(2) by simp
    have sz: "size_v ?v \<le> capacity ?v" using True by simp
    have t: "take (size_v ?v) ?blk = map Obj ?ys"
      using ly by (intro take_length_append) simp
    note i = vec_invI [OF p c l sz t]
    have ld: "load ?h (Ptr (raw_ptr (items ?v)) k) = Inr (elems ?h ?v ! k)"
      using i(1) k by (intro load_elem) simp_all
    have r: "Insert h v (Ptr (raw_ptr (items v)) k) value = Inr (Ptr (raw_ptr (items ?v)) k, ?v, ?h)"
      using Insert_gap [OF inv k True a d] a by simp
    show ?thesis
      using r i ld yk True by (intro exI [of _ ?v] exI [of _ ?h]) (simp add: Insert_move_eq)
  next
    case False
    then have eq: "size_v v = capacity v" using s(1) by simp
    let ?cn = "max (size_v v + 1) (capacity v * 2)"
    let ?blk = "map Obj ?ys @ replicate (?cn - (size_v v + 1)) Uninit"
    let ?v = "v\<lparr>items := (items v)\<lparr>raw_ptr := Some (length h)\<rparr>, size_v := size_v v + 1,
                capacity := ?cn\<rparr>"
    let ?h = "case raw_ptr (items v) of None \<Rightarrow> h @ [Live ?blk]
              | Some a \<Rightarrow> (h @ [Live ?blk])[a := Freed]"
    note rh = realloc_heap [OF inv, where blk = ?blk]
    have p: "raw_ptr (items ?v) = Some (length h)" by simp
    have l: "length ?blk = capacity ?v" using ly by simp
    have sz: "size_v ?v \<le> capacity ?v" by simp
    have t: "take (size_v ?v) ?blk = map Obj ?ys"
      using ly by (intro take_length_append) simp
    note i = vec_invI [OF p rh(1) l sz t]
    have sl: "slots_of ?h ?v = ?blk" using p rh(1) by (rule slots_of_Some)
    have ld: "load ?h (Ptr (raw_ptr (items ?v)) k) = Inr (elems ?h ?v ! k)"
      using i(1) k by (intro load_elem) simp_all
    have r: "Insert h v (Ptr (raw_ptr (items v)) k) value = Inr (Ptr (raw_ptr (items ?v)) k, ?v, ?h)"
      using Insert_grow [OF inv k False grow [OF False]] by simp
    have ls: "length (slots_of ?h ?v) = ?cn" using sl l by simp
    show ?thesis
      using r i ld yk eq ls rh(2)
      by (intro exI [of _ ?v] exI [of _ ?h]) (simp add: Insert_move_eq)
  qed
qed


text \<open>
  A parameter that is not bound to one of the shifted slots keeps its value until the
  assignment, and the claimed behaviour follows for it.
\<close>

lemma Insert_value_kept:
  assumes inv: "vec_inv h v" and k: "k \<le> size_v v" and d: "deref h value = Inr x"
    and na: "\<And>j. size_v v < capacity v \<Longrightarrow> value = Inside (Ptr (raw_ptr (items v)) j) \<Longrightarrow>
               j \<le> k \<or> size_v v < j"
  shows "\<exists>v' h'. Insert h v (Ptr (raw_ptr (items v)) k) value = Inr (Ptr (raw_ptr (items v')) k, v', h') \<and>
           Insert_move h v (Ptr (raw_ptr (items v)) k) value = Inr (Ptr (raw_ptr (items v')) k, v', h') \<and>
           size_v v' = size_v v + 1 \<and>
           elems h' v' = take k (elems h v) @ x # drop k (elems h v) \<and>
           load h' (Ptr (raw_ptr (items v')) k) = Inr x \<and>
           vec_inv h' v' \<and>
           (size_v v < capacity v \<longrightarrow>
              capacity v' = capacity v \<and> items v' = items v \<and> length h' = length h) \<and>
           (size_v v = capacity v \<longrightarrow>
              capacity v' = max (size_v v + 1) (capacity v * 2) \<and>
              raw_ptr (items v') = Some (length h) \<and>
              length (slots_of h' v') = max (size_v v + 1) (capacity v * 2) \<and>
              (\<forall>a. raw_ptr (items v) = Some a \<longrightarrow> cell_at h' a = Freed))"
proof (rule Insert_assigned [OF inv k])
  assume g: "size_v v < capacity v"
  obtain a where a: "raw_ptr (items v) = Some a"
    using vec_inv_None(1) [OF inv] g by (cases "raw_ptr (items v)") auto
  have "deref (h[a := Live (take (Suc k) (slots_of h v) @
                     take (size_v v - k) (drop k (slots_of h v)) @
                     drop (Suc (size_v v)) (slots_of h v))]) value = Inr x"
    using d na [OF g] a by (intro deref_shifted(2) [OF inv k g a]) simp_all
  then show "deref (case raw_ptr (items v) of None \<Rightarrow> h
             | Some a \<Rightarrow> h[a := Live (take (Suc k) (slots_of h v) @
                     take (size_v v - k) (drop k (slots_of h v)) @
                     drop (Suc (size_v v)) (slots_of h v))]) value = Inr x"
    using a by simp
next
  show "deref h value = Inr x" by (rule d)
qed

text \<open>
  A parameter bound to one of the shifted slots, at offset \<open>j\<close> behind the position, is
  read after the shift: the value assigned is the element that was at \<open>j - 1\<close>.
\<close>

lemma Insert_value_shifted:
  assumes inv: "vec_inv h v" and j: "k < j" "j \<le> size_v v" and g: "size_v v < capacity v"
  shows "\<exists>v' h'. Insert h v (Ptr (raw_ptr (items v)) k) (Inside (Ptr (raw_ptr (items v)) j)) =
                    Inr (Ptr (raw_ptr (items v')) k, v', h') \<and>
           elems h' v' = take k (elems h v) @ elems h v ! (j - 1) # drop k (elems h v) \<and>
           load h' (Ptr (raw_ptr (items v')) k) = Inr (elems h v ! (j - 1))"
proof -
  have k: "k \<le> size_v v" using j by simp
  obtain a where a: "raw_ptr (items v) = Some a"
    using vec_inv_None(1) [OF inv] g by (cases "raw_ptr (items v)") auto
  have "deref (case raw_ptr (items v) of None \<Rightarrow> h
             | Some a \<Rightarrow> h[a := Live (take (Suc k) (slots_of h v) @
                     take (size_v v - k) (drop k (slots_of h v)) @
                     drop (Suc (size_v v)) (slots_of h v))]) (Inside (Ptr (raw_ptr (items v)) j)) =
          Inr (elems h v ! (j - 1))"
    using deref_shifted(1) [OF inv k g a j] a by simp
  then show ?thesis
    using Insert_assigned [OF inv k, of "Inside (Ptr (raw_ptr (items v)) j)" "elems h v ! (j - 1)"] g
    by blast
qed

text \<open>
  C5. The claim: \<open>Insert\<close> at a valid position places the inserted value at that
  position. The source takes the value by reference and assigns it after the elements
  from the position on were shifted. With spare capacity and the parameter bound to an
  element behind the position, the slot the parameter names holds that element's left
  neighbour by then. For \<^verbatim>\<open>SimpleVector<int> v(Reserve(3))\<close> after
  \<^verbatim>\<open>v.PushBack(1)\<close> and \<^verbatim>\<open>v.PushBack(2)\<close>, the call
  \<^verbatim>\<open>v.Insert(v.cbegin(), v[1])\<close> passes a reference that reads 2; afterwards the
  contents are 1, 1, 2 and the returned position reads 1. The branch that reallocates
  reads the parameter while the old block is intact: from size and capacity two the
  same call gives 2, 1, 2.
\<close>

theorem Insert_reads_value_after_shift:
  "SimpleVector_reserve ([] :: int heap) (Reserve_proxy 3) =
     Inr (\<lparr>items = \<lparr>raw_ptr = Some 0\<rparr>, size_v = 0, capacity = 3\<rparr>, [Live [Uninit, Uninit, Uninit]]) \<and>
   PushBack [Live [Uninit, Uninit, Uninit]]
     \<lparr>items = \<lparr>raw_ptr = Some 0\<rparr>, size_v = 0, capacity = 3\<rparr> (Outside (1::int)) =
     Inr (\<lparr>items = \<lparr>raw_ptr = Some 0\<rparr>, size_v = 1, capacity = 3\<rparr>, [Live [Obj 1, Uninit, Uninit]]) \<and>
   PushBack [Live [Obj 1, Uninit, Uninit]]
     \<lparr>items = \<lparr>raw_ptr = Some 0\<rparr>, size_v = 1, capacity = 3\<rparr> (Outside (2::int)) =
     Inr (\<lparr>items = \<lparr>raw_ptr = Some 0\<rparr>, size_v = 2, capacity = 3\<rparr>, [Live [Obj 1, Obj 2, Uninit]]) \<and>
   vec_inv [Live [Obj (1::int), Obj 2, Uninit]]
     \<lparr>items = \<lparr>raw_ptr = Some 0\<rparr>, size_v = 2, capacity = 3\<rparr> \<and>
   cbegin \<lparr>items = \<lparr>raw_ptr = Some 0\<rparr>, size_v = 2, capacity = 3\<rparr> = Ptr (Some 0) 0 \<and>
   op_index \<lparr>items = \<lparr>raw_ptr = Some 0\<rparr>, size_v = 2, capacity = 3\<rparr> 1 = Ptr (Some 0) 1 \<and>
   deref [Live [Obj (1::int), Obj 2, Uninit]] (Inside (Ptr (Some 0) 1)) = Inr 2 \<and>
   Insert [Live [Obj (1::int), Obj 2, Uninit]]
     \<lparr>items = \<lparr>raw_ptr = Some 0\<rparr>, size_v = 2, capacity = 3\<rparr>
     (Ptr (Some 0) 0) (Inside (Ptr (Some 0) 1)) =
     Inr (Ptr (Some 0) 0, \<lparr>items = \<lparr>raw_ptr = Some 0\<rparr>, size_v = 3, capacity = 3\<rparr>,
          [Live [Obj 1, Obj 1, Obj 2]]) \<and>
   elems [Live [Obj (1::int), Obj 1, Obj 2]]
     \<lparr>items = \<lparr>raw_ptr = Some 0\<rparr>, size_v = 3, capacity = 3\<rparr> = [1, 1, 2] \<and>
   load [Live [Obj (1::int), Obj 1, Obj 2]] (Ptr (Some 0) 0) = Inr 1 \<and>
   Insert [Live [Obj (1::int), Obj 2]]
     \<lparr>items = \<lparr>raw_ptr = Some 0\<rparr>, size_v = 2, capacity = 2\<rparr>
     (Ptr (Some 0) 0) (Inside (Ptr (Some 0) 1)) =
     Inr (Ptr (Some 1) 0, \<lparr>items = \<lparr>raw_ptr = Some 1\<rparr>, size_v = 3, capacity = 4\<rparr>,
          [Freed, Live [Obj 2, Obj 1, Obj 2, Uninit]])"
  by code_simp



section \<open>Erase\<close>

lemma Erase_inner:
  assumes inv: "vec_inv h v" and k: "k < size_v v" and a: "raw_ptr (items v) = Some a"
  shows "Erase h v (Ptr (Some a) k) =
           Inr (Ptr (Some a) k, v\<lparr>size_v := size_v v - 1\<rparr>,
                h[a := Live (map Obj (take k (elems h v) @ drop (Suc k) (elems h v))
                             @ drop (size_v v - 1) (slots_of h v))])"
proof -
  let ?b = "slots_of h v"
  let ?xs = "elems h v"
  let ?n = "size_v v"
  note s = vec_inv_slots [OF inv]
  have c: "cell_at h a = Live ?b" using inv a by (rule vec_inv_Some)
  have pre: "take k ?b = map Obj (take k ?xs)"
    using vec_segment [OF inv, of 0 k] k by simp
  have post: "take (?n - Suc k) (drop (Suc k) ?b) = map Obj (drop (Suc k) ?xs)"
    using vec_segment [OF inv, of "Suc k" "?n - Suc k"] k s(4) by simp
  have "copy_loop (?n - Suc k) h (Ptr (Some a) (Suc k)) (Ptr (Some a) k) =
          Inr (h[a := Live (take k ?b @ take (?n - Suc k) (drop (Suc k) ?b) @ drop (k + (?n - Suc k)) ?b)])"
    using c k s(1,2) post
    by (intro copy_loop_left) (simp_all add: list_all_constructed_map_Obj)
  moreover have "k + (?n - Suc k) = ?n - 1" using k by simp
  ultimately have mv: "std_move h (Ptr (Some a) (Suc k)) (end_v v) (Ptr (Some a) k) =
      Inr (h[a := Live (map Obj (take k ?xs @ drop (Suc k) ?xs) @ drop (?n - 1) ?b)])"
    using k a pre post by (simp add: std_move_def std_copy_def vec_ptrs std_distance_Ptr)
  have ne: "Ptr (Some a) k \<noteq> end_v v" using k a by (simp add: vec_ptrs)
  show ?thesis using ne mv by (simp add: Erase_def ptr_add_Ptr)
qed

text \<open>
  C6. For a vector that satisfies the invariant, \<open>Erase\<close> at \<^verbatim>\<open>end()\<close> returns
  \<^verbatim>\<open>end()\<close> and changes nothing; at the position \<open>k\<close> places after
  \<^verbatim>\<open>begin()\<close>, with \<open>k\<close> below the size, it returns normally with the same position,
  the size is one less, the contents are the old ones without the element at \<open>k\<close>, in
  the same order, and handle, capacity, number of slots of the block and number of
  blocks in the heap are unchanged.
\<close>

theorem Erase_spec:
  assumes "vec_inv h v"
  shows "Erase h v (end_v v) = Inr (end_v v, v, h) \<and>
         (k < size_v v \<longrightarrow>
            (\<exists>h'. Erase h v (Ptr (raw_ptr (items v)) k) =
                     Inr (Ptr (raw_ptr (items v)) k, v\<lparr>size_v := size_v v - 1\<rparr>, h') \<and>
                   elems h' (v\<lparr>size_v := size_v v - 1\<rparr>) =
                     take k (elems h v) @ drop (Suc k) (elems h v) \<and>
                   vec_inv h' (v\<lparr>size_v := size_v v - 1\<rparr>) \<and>
                   length h' = length h \<and>
                   length (slots_of h' (v\<lparr>size_v := size_v v - 1\<rparr>)) = capacity v))"
proof (intro conjI impI)
  show "Erase h v (end_v v) = Inr (end_v v, v, h)" by (simp add: Erase_def)
next
  assume k: "k < size_v v"
  let ?ys = "take k (elems h v) @ drop (Suc k) (elems h v)"
  let ?v = "v\<lparr>size_v := size_v v - 1\<rparr>"
  note s = vec_inv_slots [OF assms]
  obtain a where a: "raw_ptr (items v) = Some a"
    using vec_inv_None(2) [OF assms] k by (cases "raw_ptr (items v)") auto
  let ?blk = "map Obj ?ys @ drop (size_v v - 1) (slots_of h v)"
  let ?h = "h[a := Live ?blk]"
  have ly: "length ?ys = size_v v - 1" using k s(4) by simp
  have al: "a < length h" using assms a by (rule vec_inv_Some)
  have p: "raw_ptr (items ?v) = Some a" using a by simp
  have c: "cell_at ?h a = Live ?blk" using al by (simp add: cell_at_update)
  have l: "length ?blk = capacity ?v" using k ly s(1,2) by simp
  have sz: "size_v ?v \<le> capacity ?v" using s(1) by simp
  have t: "take (size_v ?v) ?blk = map Obj ?ys"
    using ly by (intro take_length_append) simp
  note i = vec_invI [OF p c l sz t]
  have sl: "slots_of ?h ?v = ?blk" using p c by (rule slots_of_Some)
  have ls: "length (slots_of ?h ?v) = capacity v" using sl l by simp
  have r: "Erase h v (Ptr (raw_ptr (items v)) k) = Inr (Ptr (raw_ptr (items v)) k, ?v, ?h)"
    using Erase_inner [OF assms k a] a by simp
  show "\<exists>h'. Erase h v (Ptr (raw_ptr (items v)) k) =
                     Inr (Ptr (raw_ptr (items v)) k, v\<lparr>size_v := size_v v - 1\<rparr>, h') \<and>
                   elems h' (v\<lparr>size_v := size_v v - 1\<rparr>) =
                     take k (elems h v) @ drop (Suc k) (elems h v) \<and>
                   vec_inv h' (v\<lparr>size_v := size_v v - 1\<rparr>) \<and>
                   length h' = length h \<and>
                   length (slots_of h' (v\<lparr>size_v := size_v v - 1\<rparr>)) = capacity v"
    using r i ls by (intro exI [of _ ?h]) simp
qed

theorem Erase_spec_witness:
  "vec_inv [Live [Obj (1::int), Obj 2, Obj 3, Uninit]]
     \<lparr>items = \<lparr>raw_ptr = Some 0\<rparr>, size_v = 3, capacity = 4\<rparr> \<and>
   Erase [Live [Obj (1::int), Obj 2, Obj 3, Uninit]]
     \<lparr>items = \<lparr>raw_ptr = Some 0\<rparr>, size_v = 3, capacity = 4\<rparr> (Ptr (Some 0) 3) =
     Inr (Ptr (Some 0) 3, \<lparr>items = \<lparr>raw_ptr = Some 0\<rparr>, size_v = 3, capacity = 4\<rparr>,
          [Live [Obj 1, Obj 2, Obj 3, Uninit]]) \<and>
   (\<exists>h'. Erase [Live [Obj (1::int), Obj 2, Obj 3, Uninit]]
            \<lparr>items = \<lparr>raw_ptr = Some 0\<rparr>, size_v = 3, capacity = 4\<rparr> (Ptr (Some 0) 1) =
            Inr (Ptr (Some 0) 1, \<lparr>items = \<lparr>raw_ptr = Some 0\<rparr>, size_v = 2, capacity = 4\<rparr>, h') \<and>
          elems h' \<lparr>items = \<lparr>raw_ptr = Some 0\<rparr>, size_v = 2, capacity = 4\<rparr> = [1, 3] \<and>
          length h' = 1)"
proof -
  let ?h = "[Live [Obj (1::int), Obj 2, Obj 3, Uninit]]"
  let ?v = "\<lparr>items = \<lparr>raw_ptr = Some 0\<rparr>, size_v = 3, capacity = 4\<rparr>"
  have inv: "vec_inv ?h ?v"
    by (simp add: vec_inv_def cell_at_def constructed_def)
  have e: "elems ?h ?v = [1, 2, 3]"
    by (simp add: elems_def slots_of_def cell_at_def)
  have p: "end_v ?v = Ptr (Some 0) 3" by (simp add: vec_ptrs)
  show ?thesis
    using inv e p Erase_spec [OF inv, of 1] by auto
qed



section \<open>At\<close>

text \<open>
  C8. For a vector that satisfies the invariant and every index \<open>i\<close>, \<open>At\<close> throws
  \<^verbatim>\<open>std::out_of_range\<close> exactly when \<open>i\<close> is not below the size; below the size it
  returns the reference to slot \<open>i\<close> of the block, which reads as the element at
  offset \<open>i\<close>; the vector is the same afterwards in both cases. In particular \<open>At\<close> at
  the size throws, also for an empty vector, and \<open>At\<close> at size minus one succeeds for a
  non-empty one.
\<close>

theorem At_spec:
  assumes "vec_inv h v"
  shows "(fst (At v i) = Inl out_of_range \<longleftrightarrow> size_v v \<le> i) \<and>
         (i < size_v v \<longrightarrow>
            fst (At v i) = Inr (Ptr (raw_ptr (items v)) i) \<and>
            load h (Ptr (raw_ptr (items v)) i) = Inr (elems h v ! i)) \<and>
         snd (At v i) = v \<and>
         fst (At v (size_v v)) = Inl out_of_range \<and>
         (0 < size_v v \<longrightarrow> fst (At v (size_v v - 1)) = Inr (Ptr (raw_ptr (items v)) (size_v v - 1)))"
  using load_elem [OF assms, of i] by (auto simp: At_def vec_ptrs)

theorem At_spec_witness:
  "vec_inv [Live [Obj (1::int), Obj 2, Uninit]]
     \<lparr>items = \<lparr>raw_ptr = Some 0\<rparr>, size_v = 2, capacity = 3\<rparr> \<and>
   At \<lparr>items = \<lparr>raw_ptr = Some 0\<rparr>, size_v = 2, capacity = 3\<rparr> 1 =
     (Inr (Ptr (Some 0) 1), \<lparr>items = \<lparr>raw_ptr = Some 0\<rparr>, size_v = 2, capacity = 3\<rparr>) \<and>
   load [Live [Obj (1::int), Obj 2, Uninit]] (Ptr (Some 0) 1) = Inr 2 \<and>
   At \<lparr>items = \<lparr>raw_ptr = Some 0\<rparr>, size_v = 2, capacity = 3\<rparr> 2 =
     (Inl out_of_range, \<lparr>items = \<lparr>raw_ptr = Some 0\<rparr>, size_v = 2, capacity = 3\<rparr>)"
proof -
  let ?h = "[Live [Obj (1::int), Obj 2, Uninit]]"
  let ?v = "\<lparr>items = \<lparr>raw_ptr = Some 0\<rparr>, size_v = 2, capacity = 3\<rparr>"
  have inv: "vec_inv ?h ?v"
    by (simp add: vec_inv_def cell_at_def constructed_def)
  have e: "elems ?h ?v = [1, 2]"
    by (simp add: elems_def slots_of_def cell_at_def)
  show ?thesis
    using inv e At_spec [OF inv, of 1] At_spec [OF inv, of 2]
    by (auto simp: prod_eq_iff)
qed



section \<open>Relational operators\<close>

lemma vec_inv_pos_Some:
  assumes "vec_inv h v" and "0 < size_v v"
  shows "\<exists>a. raw_ptr (items v) = Some a \<and> cell_at h a = Live (slots_of h v)"
proof -
  obtain a where a: "raw_ptr (items v) = Some a"
    using vec_inv_None(2) [OF assms(1)] assms(2) by (cases "raw_ptr (items v)") auto
  then show ?thesis using vec_inv_Some(1) [OF assms(1) a] by simp
qed

lemma equal_loop_vec:
  assumes "vec_inv h a" and "vec_inv h b" and "size_v a = size_v b"
  shows "equal_loop (size_v a) h (Ptr (raw_ptr (items a)) 0) (Ptr (raw_ptr (items b)) 0) =
           Inr (elems h a = elems h b)"
proof (cases "size_v a = 0")
  case True
  then show ?thesis
    using vec_inv_slots(4) [OF assms(1)] vec_inv_slots(4) [OF assms(2)] assms(3) by simp
next
  case False
  obtain p where p: "raw_ptr (items a) = Some p" "cell_at h p = Live (slots_of h a)"
    using vec_inv_pos_Some [OF assms(1)] False by auto
  obtain q where q: "raw_ptr (items b) = Some q" "cell_at h q = Live (slots_of h b)"
    using vec_inv_pos_Some [OF assms(2)] False assms(3) by auto
  note sa = vec_inv_slots [OF assms(1)]
  note sb = vec_inv_slots [OF assms(2)]
  have "equal_loop (size_v a) h (Ptr (Some p) 0) (Ptr (Some q) 0) = Inr (elems h a = elems h b)"
    using p(2) q(2) sa(3,4) sb(3,4) assms(3) by (intro equal_loop_Live) simp_all
  then show ?thesis using p(1) q(1) by simp
qed

lemma lexicographical_loop_vec:
  fixes h :: "('a::linorder) heap"
  assumes "vec_inv h a" and "vec_inv h b"
  shows "lexicographical_loop (size_v a) (size_v b) h (Ptr (raw_ptr (items a)) 0)
           (Ptr (raw_ptr (items b)) 0) =
           Inr ((elems h a, elems h b) \<in> lexord {(x, y). x < y})"
proof -
  note sa = vec_inv_slots [OF assms(1)]
  note sb = vec_inv_slots [OF assms(2)]
  show ?thesis
  proof (cases "size_v a = 0")
    case True
    then have "elems h a = []" using sa(4) by simp
    then show ?thesis using True sb(4) by (cases "elems h b") auto
  next
    case na: False
    then obtain m where m: "size_v a = Suc m" by (cases "size_v a") simp_all
    show ?thesis
    proof (cases "size_v b = 0")
      case True
      then have "elems h b = []" using sb(4) by simp
      then show ?thesis using True m by simp
    next
      case False
      obtain p where p: "raw_ptr (items a) = Some p" "cell_at h p = Live (slots_of h a)"
        using vec_inv_pos_Some [OF assms(1)] na by auto
      obtain q where q: "raw_ptr (items b) = Some q" "cell_at h q = Live (slots_of h b)"
        using vec_inv_pos_Some [OF assms(2)] False by auto
      have "lexicographical_loop (size_v a) (size_v b) h (Ptr (Some p) 0) (Ptr (Some q) 0) =
              Inr ((elems h a, elems h b) \<in> lexord {(x, y). x < y})"
        using p(2) q(2) sa(3,4) sb(3,4) by (intro lexicographical_loop_Live) simp_all
      then show ?thesis using p(1) q(1) by simp
    qed
  qed
qed

lemma op_eq_vec:
  assumes "vec_inv h a" and "vec_inv h b"
  shows "op_eq h a b = Inr (elems h a = elems h b)"
proof (cases "size_v a = size_v b")
  case True
  then show ?thesis
    using equal_loop_vec [OF assms True]
    by (simp add: op_eq_def GetSize_def std_equal_def vec_ptrs std_distance_Ptr)
next
  case False
  then have "elems h a \<noteq> elems h b"
    using vec_inv_slots(4) [OF assms(1)] vec_inv_slots(4) [OF assms(2)] by metis
  then show ?thesis using False by (simp add: op_eq_def GetSize_def)
qed

lemma op_lt_vec:
  fixes h :: "('a::linorder) heap"
  assumes "vec_inv h a" and "vec_inv h b"
  shows "op_lt h a b = Inr ((elems h a, elems h b) \<in> lexord {(x, y). x < y})"
  using lexicographical_loop_vec [OF assms]
  by (simp add: op_lt_def std_lexicographical_compare_def vec_ptrs std_distance_Ptr)

text \<open>
  C9. For two vectors that satisfy the invariant, over an element type with a linear
  order, all six operators return normally and: \<open>==\<close> holds exactly when the sizes are
  equal and the elements agree at every offset; \<open><\<close> is the lexicographic order of
  the contents, so a vector whose contents are a proper prefix of the other's is
  smaller, and where the contents first differ the order of the two differing elements
  decides; \<open>!=\<close> is the negation of \<open>==\<close>, \<open><=\<close> the negation of \<open><\<close> with the
  operands exchanged, \<open>>\<close> is \<open><\<close> with the operands exchanged, and \<open>>=\<close> the negation
  of \<open><\<close>.
\<close>

theorem relational_spec:
  fixes h :: "('a::linorder) heap"
  assumes "vec_inv h a" and "vec_inv h b"
  shows "op_eq h a b =
           Inr (size_v a = size_v b \<and> (\<forall>i<size_v a. elems h a ! i = elems h b ! i)) \<and>
         op_lt h a b = Inr ((elems h a, elems h b) \<in> lexord {(x, y). x < y}) \<and>
         (\<forall>zs. zs \<noteq> [] \<and> elems h b = elems h a @ zs \<longrightarrow> op_lt h a b = Inr True) \<and>
         (\<forall>us x xs y ys. elems h a = us @ x # xs \<and> elems h b = us @ y # ys \<and> x \<noteq> y \<longrightarrow>
            op_lt h a b = Inr (x < y)) \<and>
         op_ne h a b = map_sum id Not (op_eq h a b) \<and>
         op_le h a b = map_sum id Not (op_lt h b a) \<and>
         op_gt h a b = op_lt h b a \<and>
         op_ge h a b = map_sum id Not (op_lt h a b) \<and>
         (\<exists>e l g. op_eq h a b = Inr e \<and> op_lt h a b = Inr l \<and> op_lt h b a = Inr g \<and>
            op_ne h a b = Inr (\<not> e) \<and> op_le h a b = Inr (\<not> g) \<and> op_gt h a b = Inr g \<and>
            op_ge h a b = Inr (\<not> l))"
proof -
  note sa = vec_inv_slots [OF assms(1)]
  note sb = vec_inv_slots [OF assms(2)]
  have e: "op_eq h a b = Inr (elems h a = elems h b)"
    using assms by (rule op_eq_vec)
  have l: "op_lt h a b = Inr ((elems h a, elems h b) \<in> lexord {(x, y). x < y})"
    using assms by (rule op_lt_vec)
  have g: "op_lt h b a = Inr ((elems h b, elems h a) \<in> lexord {(x, y). x < y})"
    using assms(2,1) by (rule op_lt_vec)
  have "(elems h a = elems h b) \<longleftrightarrow>
          (size_v a = size_v b \<and> (\<forall>i<size_v a. elems h a ! i = elems h b ! i))"
    using sa(4) sb(4) by (auto simp: list_eq_iff_nth_eq)
  then have c1: "op_eq h a b =
           Inr (size_v a = size_v b \<and> (\<forall>i<size_v a. elems h a ! i = elems h b ! i))"
    using e by simp
  have c3: "\<forall>zs. zs \<noteq> [] \<and> elems h b = elems h a @ zs \<longrightarrow> op_lt h a b = Inr True"
  proof (intro allI impI)
    fix zs :: "'a list"
    assume z: "zs \<noteq> [] \<and> elems h b = elems h a @ zs"
    then obtain c cs where "zs = c # cs" by (cases zs) auto
    then have "(elems h a, elems h a @ zs) \<in> lexord {(x, y). x < y}"
      by (intro lexord_append_rightI) blast
    then show "op_lt h a b = Inr True" using l z by simp
  qed
  have c4: "\<forall>us x xs y ys. elems h a = us @ x # xs \<and> elems h b = us @ y # ys \<and> x \<noteq> y \<longrightarrow>
            op_lt h a b = Inr (x < y)"
    using l by (auto simp: lexord_same_pref_iff)
  show ?thesis
    using c1 l c3 c4 e g by (simp add: op_ne_def op_le_def op_gt_def op_ge_def)
qed


theorem relational_spec_witness:
  "vec_inv [Live [Obj (1::int), Obj 2, Obj 3], Live [Obj 1, Obj 2], Live [Obj 1, Obj 3],
            Live [Obj 1, Obj 2, Obj 9], Live [Obj 1, Obj 2, Obj 3]]
     \<lparr>items = \<lparr>raw_ptr = Some 0\<rparr>, size_v = 3, capacity = 3\<rparr> \<and>
   vec_inv [Live [Obj (1::int), Obj 2, Obj 3], Live [Obj 1, Obj 2], Live [Obj 1, Obj 3],
            Live [Obj 1, Obj 2, Obj 9], Live [Obj 1, Obj 2, Obj 3]]
     \<lparr>items = \<lparr>raw_ptr = Some 1\<rparr>, size_v = 2, capacity = 2\<rparr> \<and>
   op_eq [Live [Obj (1::int), Obj 2, Obj 3], Live [Obj 1, Obj 2], Live [Obj 1, Obj 3],
          Live [Obj 1, Obj 2, Obj 9], Live [Obj 1, Obj 2, Obj 3]]
     \<lparr>items = \<lparr>raw_ptr = Some 0\<rparr>, size_v = 3, capacity = 3\<rparr>
     \<lparr>items = \<lparr>raw_ptr = Some 4\<rparr>, size_v = 3, capacity = 3\<rparr> = Inr True \<and>
   op_eq [Live [Obj (1::int), Obj 2, Obj 3], Live [Obj 1, Obj 2], Live [Obj 1, Obj 3],
          Live [Obj 1, Obj 2, Obj 9], Live [Obj 1, Obj 2, Obj 3]]
     \<lparr>items = \<lparr>raw_ptr = Some 0\<rparr>, size_v = 3, capacity = 3\<rparr>
     \<lparr>items = \<lparr>raw_ptr = Some 1\<rparr>, size_v = 2, capacity = 2\<rparr> = Inr False \<and>
   op_lt [Live [Obj (1::int), Obj 2, Obj 3], Live [Obj 1, Obj 2], Live [Obj 1, Obj 3],
          Live [Obj 1, Obj 2, Obj 9], Live [Obj 1, Obj 2, Obj 3]]
     \<lparr>items = \<lparr>raw_ptr = Some 1\<rparr>, size_v = 2, capacity = 2\<rparr>
     \<lparr>items = \<lparr>raw_ptr = Some 0\<rparr>, size_v = 3, capacity = 3\<rparr> = Inr True \<and>
   op_gt [Live [Obj (1::int), Obj 2, Obj 3], Live [Obj 1, Obj 2], Live [Obj 1, Obj 3],
          Live [Obj 1, Obj 2, Obj 9], Live [Obj 1, Obj 2, Obj 3]]
     \<lparr>items = \<lparr>raw_ptr = Some 2\<rparr>, size_v = 2, capacity = 2\<rparr>
     \<lparr>items = \<lparr>raw_ptr = Some 3\<rparr>, size_v = 3, capacity = 3\<rparr> = Inr True"
proof -
  let ?h = "[Live [Obj (1::int), Obj 2, Obj 3], Live [Obj 1, Obj 2], Live [Obj 1, Obj 3],
             Live [Obj 1, Obj 2, Obj 9], Live [Obj 1, Obj 2, Obj 3]]"
  let ?a = "\<lparr>items = \<lparr>raw_ptr = Some 0\<rparr>, size_v = 3, capacity = 3\<rparr>"
  let ?b = "\<lparr>items = \<lparr>raw_ptr = Some 1\<rparr>, size_v = 2, capacity = 2\<rparr>"
  let ?c = "\<lparr>items = \<lparr>raw_ptr = Some 2\<rparr>, size_v = 2, capacity = 2\<rparr>"
  let ?d = "\<lparr>items = \<lparr>raw_ptr = Some 3\<rparr>, size_v = 3, capacity = 3\<rparr>"
  let ?e = "\<lparr>items = \<lparr>raw_ptr = Some 4\<rparr>, size_v = 3, capacity = 3\<rparr>"
  have inv: "vec_inv ?h ?a" "vec_inv ?h ?b" "vec_inv ?h ?c" "vec_inv ?h ?d" "vec_inv ?h ?e"
    by (simp_all add: vec_inv_def cell_at_def constructed_def)
  have el: "elems ?h ?a = [1, 2, 3]" "elems ?h ?b = [1, 2]" "elems ?h ?c = [1, 3]"
    "elems ?h ?d = [1, 2, 9]" "elems ?h ?e = [1, 2, 3]"
    by (simp_all add: elems_def slots_of_def cell_at_def)
  have "op_eq ?h ?a ?e = Inr True"
    using relational_spec [OF inv(1) inv(5)] el by simp
  moreover have "op_eq ?h ?a ?b = Inr False"
    using relational_spec [OF inv(1) inv(2)] by simp
  moreover have "op_lt ?h ?b ?a = Inr True"
    using relational_spec [OF inv(2) inv(1)] el by simp
  moreover have "op_gt ?h ?c ?d = Inr True"
    using relational_spec [OF inv(3) inv(4)] relational_spec [OF inv(4) inv(3)] el by simp
  ultimately show ?thesis using inv(1,2) by simp
qed



section \<open>Copy construction and assignment\<close>

lemma SimpleVector_sized_pos:
  assumes "n \<noteq> 0"
  shows "SimpleVector_sized h n dflt =
           Inr (\<lparr>items = \<lparr>raw_ptr = Some (length h)\<rparr>, size_v = n, capacity = n\<rparr>,
                h @ [Live (replicate n (Obj dflt))])"
proof -
  let ?h1 = "h @ [Live (replicate n Uninit)]"
  have "fill_loop n ?h1 (Ptr (Some (length h)) 0) dflt =
          Inr (?h1[length h := Live (take 0 (replicate n Uninit) @ replicate n (Obj dflt)
                 @ drop (0 + n) (replicate n Uninit))])"
    by (intro fill_loop_Live) (simp_all add: cell_at_append)
  then have "std_fill ?h1 (Ptr (Some (length h)) 0) (Ptr (Some (length h)) n) dflt =
          Inr (h @ [Live (replicate n (Obj dflt))])"
    by (simp add: std_fill_def std_distance_Ptr)
  then show ?thesis
    using assms by (simp add: SimpleVector_sized_def ArrayPtr_sized_pos vec_ptrs)
qed

lemma SimpleVector_sized_0:
  "SimpleVector_sized h 0 dflt = Inr (\<lparr>items = \<lparr>raw_ptr = None\<rparr>, size_v = 0, capacity = 0\<rparr>, h)"
  by (simp add: SimpleVector_sized_def ArrayPtr_sized_def vec_ptrs std_fill_def std_distance_Ptr)

lemma SimpleVector_copy_vec:
  assumes "vec_inv h other"
  shows "SimpleVector_copy h other dflt =
           Inr (\<lparr>items = \<lparr>raw_ptr = (if size_v other = 0 then None else Some (length h))\<rparr>,
                  size_v = size_v other, capacity = size_v other\<rparr>,
                (if size_v other = 0 then h else h @ [Live (map Obj (elems h other))]))"
proof (cases "size_v other = 0")
  case True
  then show ?thesis
    by (simp add: SimpleVector_copy_def SimpleVector_sized_0 vec_ptrs std_copy_def
        std_distance_Ptr SimpleVector_swap_def ArrayPtr_swap_eq SimpleVector_default_def
        ArrayPtr_default_def SimpleVector_dtor_def ArrayPtr_dtor_def delete_array_def)
next
  case False
  let ?n = "size_v other"
  let ?d = "length h"
  let ?blk1 = "replicate ?n (Obj dflt)"
  let ?h1 = "h @ [Live ?blk1]"
  note nf = vec_inv_not_fresh [OF assms]
  note f = vec_inv_fresh [OF assms]
  note s = vec_inv_slots [OF assms]
  have "copy_loop ?n ?h1 (Ptr (raw_ptr (items other)) 0) (Ptr (Some ?d) 0) =
          Inr (?h1[?d := Live (take 0 ?blk1 @ map Obj (take ?n (drop 0 (elems ?h1 other)))
                 @ drop (0 + ?n) ?blk1)])"
    using nf f(1) by (intro copy_loop_from_vec) (simp_all add: cell_at_append)
  then have cp: "std_copy ?h1 (Ptr (raw_ptr (items other)) 0) (Ptr (raw_ptr (items other)) ?n)
                   (Ptr (Some ?d) 0) = Inr (h @ [Live (map Obj (elems h other))])"
    using s(4) by (simp add: std_copy_def std_distance_Ptr f(2))
  show ?thesis
    using False cp
    by (simp add: SimpleVector_copy_def SimpleVector_sized_pos vec_ptrs
        SimpleVector_swap_def ArrayPtr_swap_eq SimpleVector_default_def
        ArrayPtr_default_def SimpleVector_dtor_def ArrayPtr_dtor_def delete_array_def)
qed

lemma op_ne_vec:
  assumes "vec_inv h a" and "vec_inv h b"
  shows "op_ne h a b = Inr (elems h a \<noteq> elems h b)"
  using op_eq_vec [OF assms] by (simp add: op_ne_def)

lemma op_assign_move_eq:
  "op_assign_move h this rhs dflt =
     map_sum id (\<lambda>(this', h'). (this', rhs, h')) (op_assign h this rhs dflt)"
  by (simp add: op_assign_move_def op_assign_def split: sum.splits prod.splits)

lemma op_assign_differ:
  assumes "vec_inv h this" and "vec_inv h rhs" and "elems h this \<noteq> elems h rhs"
  shows "op_assign h this rhs dflt =
           Inr (this\<lparr>items := (items this)\<lparr>raw_ptr :=
                        (if size_v rhs = 0 then None else Some (length h))\<rparr>,
                      size_v := size_v rhs, capacity := size_v rhs\<rparr>,
                (case raw_ptr (items this) of
                   None \<Rightarrow> (if size_v rhs = 0 then h else h @ [Live (map Obj (elems h rhs))])
                 | Some a \<Rightarrow>
                     (if size_v rhs = 0 then h else h @ [Live (map Obj (elems h rhs))])[a := Freed]))"
proof -
  let ?h1 = "if size_v rhs = 0 then h else h @ [Live (map Obj (elems h rhs))]"
  have "\<And>a. raw_ptr (items this) = Some a \<Longrightarrow> cell_at ?h1 a = cell_at h a"
    using vec_inv_not_fresh [OF assms(1)] by (simp add: cell_at_append)
  then have del: "delete_array ?h1 (raw_ptr (items this)) =
      Inr (case raw_ptr (items this) of None \<Rightarrow> ?h1 | Some a \<Rightarrow> ?h1[a := Freed])"
    by (rule delete_vec_block [OF assms(1)])
  show ?thesis
    using assms(3) del
    by (simp add: op_assign_def op_ne_vec [OF assms(1,2)] SimpleVector_copy_vec [OF assms(2)]
        SimpleVector_swap_def ArrayPtr_swap_eq SimpleVector_dtor_def ArrayPtr_dtor_def)
qed


text \<open>
  C10. For two vectors that satisfy the invariant: if their contents are equal, copy
  assignment and move assignment return normally and change neither the target (handle,
  size and capacity) nor the heap, whatever the two capacities are; if their contents
  differ, both return normally with the same target, whose capacity and size are the
  size of the source and whose contents are the source's, and the invariant holds for
  it.
\<close>

theorem assign_spec:
  assumes "vec_inv h this" and "vec_inv h rhs"
  shows "(elems h this = elems h rhs \<longrightarrow>
            op_assign h this rhs dflt = Inr (this, h) \<and>
            op_assign_move h this rhs dflt = Inr (this, rhs, h)) \<and>
         (elems h this \<noteq> elems h rhs \<longrightarrow>
            (\<exists>this' h'. op_assign h this rhs dflt = Inr (this', h') \<and>
               op_assign_move h this rhs dflt = Inr (this', rhs, h') \<and>
               capacity this' = size_v rhs \<and> size_v this' = size_v rhs \<and>
               elems h' this' = elems h rhs \<and> vec_inv h' this'))"
proof (intro conjI impI)
  assume "elems h this = elems h rhs"
  then show "op_assign h this rhs dflt = Inr (this, h)"
    by (simp add: op_assign_def op_ne_vec [OF assms])
  then show "op_assign_move h this rhs dflt = Inr (this, rhs, h)"
    by (simp add: op_assign_move_eq)
next
  assume d: "elems h this \<noteq> elems h rhs"
  let ?n = "size_v rhs"
  let ?blk = "map Obj (elems h rhs)"
  let ?v = "this\<lparr>items := (items this)\<lparr>raw_ptr := (if ?n = 0 then None else Some (length h))\<rparr>,
                 size_v := ?n, capacity := ?n\<rparr>"
  let ?h1 = "if ?n = 0 then h else h @ [Live ?blk]"
  let ?h = "case raw_ptr (items this) of None \<Rightarrow> ?h1 | Some a \<Rightarrow> ?h1[a := Freed]"
  note s = vec_inv_slots [OF assms(2)]
  have r: "op_assign h this rhs dflt = Inr (?v, ?h)"
    using assms d by (rule op_assign_differ)
  have i: "vec_inv ?h ?v \<and> elems ?h ?v = elems h rhs"
  proof (cases "?n = 0")
    case True
    then show ?thesis using s(4) by (simp add: vec_inv_def elems_def)
  next
    case False
    note rh = realloc_heap [OF assms(1), where blk = ?blk]
    have hh: "?h = (case raw_ptr (items this) of None \<Rightarrow> h @ [Live ?blk]
                    | Some a \<Rightarrow> (h @ [Live ?blk])[a := Freed])"
      using False by simp
    have p: "raw_ptr (items ?v) = Some (length h)" using False by simp
    have c: "cell_at ?h (length h) = Live ?blk" unfolding hh by (rule rh(1))
    have l: "length ?blk = capacity ?v" using s(4) by simp
    have sz: "size_v ?v \<le> capacity ?v" by simp
    have t: "take (size_v ?v) ?blk = map Obj (elems h rhs)" using s(4) by simp
    show ?thesis using vec_invI [OF p c l sz t] by simp
  qed
  show "\<exists>this' h'. op_assign h this rhs dflt = Inr (this', h') \<and>
               op_assign_move h this rhs dflt = Inr (this', rhs, h') \<and>
               capacity this' = size_v rhs \<and> size_v this' = size_v rhs \<and>
               elems h' this' = elems h rhs \<and> vec_inv h' this'"
    using r i by (intro exI [of _ ?v] exI [of _ ?h]) (simp add: op_assign_move_eq)
qed

theorem assign_spec_witness:
  "vec_inv [Live [Obj (1::int), Obj 2, Uninit], Live [Obj 1, Obj 2],
            Live [Obj 5, Uninit, Uninit, Uninit]]
     \<lparr>items = \<lparr>raw_ptr = Some 0\<rparr>, size_v = 2, capacity = 3\<rparr> \<and>
   vec_inv [Live [Obj (1::int), Obj 2, Uninit], Live [Obj 1, Obj 2],
            Live [Obj 5, Uninit, Uninit, Uninit]]
     \<lparr>items = \<lparr>raw_ptr = Some 1\<rparr>, size_v = 2, capacity = 2\<rparr> \<and>
   vec_inv [Live [Obj (1::int), Obj 2, Uninit], Live [Obj 1, Obj 2],
            Live [Obj 5, Uninit, Uninit, Uninit]]
     \<lparr>items = \<lparr>raw_ptr = Some 2\<rparr>, size_v = 1, capacity = 4\<rparr> \<and>
   op_assign [Live [Obj (1::int), Obj 2, Uninit], Live [Obj 1, Obj 2],
              Live [Obj 5, Uninit, Uninit, Uninit]]
     \<lparr>items = \<lparr>raw_ptr = Some 0\<rparr>, size_v = 2, capacity = 3\<rparr>
     \<lparr>items = \<lparr>raw_ptr = Some 1\<rparr>, size_v = 2, capacity = 2\<rparr> 0 =
     Inr (\<lparr>items = \<lparr>raw_ptr = Some 0\<rparr>, size_v = 2, capacity = 3\<rparr>,
          [Live [Obj 1, Obj 2, Uninit], Live [Obj 1, Obj 2], Live [Obj 5, Uninit, Uninit, Uninit]]) \<and>
   (\<exists>this' h'. op_assign_move [Live [Obj (1::int), Obj 2, Uninit], Live [Obj 1, Obj 2],
                                Live [Obj 5, Uninit, Uninit, Uninit]]
                  \<lparr>items = \<lparr>raw_ptr = Some 0\<rparr>, size_v = 2, capacity = 3\<rparr>
                  \<lparr>items = \<lparr>raw_ptr = Some 2\<rparr>, size_v = 1, capacity = 4\<rparr> 0 =
                  Inr (this', \<lparr>items = \<lparr>raw_ptr = Some 2\<rparr>, size_v = 1, capacity = 4\<rparr>, h') \<and>
                capacity this' = 1 \<and> elems h' this' = [5])"
proof -
  let ?h = "[Live [Obj (1::int), Obj 2, Uninit], Live [Obj 1, Obj 2],
             Live [Obj 5, Uninit, Uninit, Uninit]]"
  let ?a = "\<lparr>items = \<lparr>raw_ptr = Some 0\<rparr>, size_v = 2, capacity = 3\<rparr>"
  let ?b = "\<lparr>items = \<lparr>raw_ptr = Some 1\<rparr>, size_v = 2, capacity = 2\<rparr>"
  let ?c = "\<lparr>items = \<lparr>raw_ptr = Some 2\<rparr>, size_v = 1, capacity = 4\<rparr>"
  have inv: "vec_inv ?h ?a" "vec_inv ?h ?b" "vec_inv ?h ?c"
    by (simp_all add: vec_inv_def cell_at_def constructed_def)
  have el: "elems ?h ?a = [1, 2]" "elems ?h ?b = [1, 2]" "elems ?h ?c = [5]"
    by (simp_all add: elems_def slots_of_def cell_at_def)
  have "op_assign ?h ?a ?b 0 = Inr (?a, ?h)"
    using assign_spec [OF inv(1) inv(2), of 0] el by simp
  moreover have "\<exists>this' h'. op_assign_move ?h ?a ?c 0 = Inr (this', ?c, h') \<and>
                capacity this' = 1 \<and> elems h' this' = [5]"
    using assign_spec [OF inv(1) inv(3), of 0] el by auto
  ultimately show ?thesis using inv by simp
qed


section \<open>Moving a vector\<close>

lemma SimpleVector_move_empties_source:
  "SimpleVector_move other =
     (\<lparr>items = \<lparr>raw_ptr = raw_ptr (items other)\<rparr>, size_v = size_v other,
        capacity = capacity other\<rparr>,
      other\<lparr>items := (items other)\<lparr>raw_ptr := None\<rparr>, size_v := 0, capacity := 0\<rparr>)"
  by (simp add: SimpleVector_move_def std_exchange_def ArrayPtr_move_ctor_def
      ArrayPtr_move_assign_def ArrayPtr_default_def)

text \<open>
  C2. The claim: move construction and move assignment both leave the source empty, with
  size and capacity zero, and transfer the block without copying elements. The move
  constructor does. Move assignment does not: for \<^verbatim>\<open>a = {1, 2, 3}\<close> and an empty
  \<^verbatim>\<open>b\<close>, after \<^verbatim>\<open>b = std::move(a)\<close> the source still has size and capacity three
  and its block, and the target holds a copy of the elements in a second block.
\<close>

theorem move_assign_keeps_source:
  "SimpleVector_init ([] :: int heap) [1, 2, 3] =
     Inr (\<lparr>items = \<lparr>raw_ptr = Some 0\<rparr>, size_v = 3, capacity = 3\<rparr>, [Live [Obj 1, Obj 2, Obj 3]]) \<and>
   op_assign_move [Live [Obj (1::int), Obj 2, Obj 3]] SimpleVector_default
     \<lparr>items = \<lparr>raw_ptr = Some 0\<rparr>, size_v = 3, capacity = 3\<rparr> 0 =
     Inr (\<lparr>items = \<lparr>raw_ptr = Some 1\<rparr>, size_v = 3, capacity = 3\<rparr>,
          \<lparr>items = \<lparr>raw_ptr = Some 0\<rparr>, size_v = 3, capacity = 3\<rparr>,
          [Live [Obj 1, Obj 2, Obj 3], Live [Obj 1, Obj 2, Obj 3]]) \<and>
   GetSize \<lparr>items = \<lparr>raw_ptr = Some 0\<rparr>, size_v = 3, capacity = 3\<rparr> = 3 \<and>
   GetCapacity \<lparr>items = \<lparr>raw_ptr = Some 0\<rparr>, size_v = 3, capacity = 3\<rparr> = 3 \<and>
   SimpleVector_move \<lparr>items = \<lparr>raw_ptr = Some 0\<rparr>, size_v = 3, capacity = 3\<rparr> =
     (\<lparr>items = \<lparr>raw_ptr = Some 0\<rparr>, size_v = 3, capacity = 3\<rparr>,
      \<lparr>items = \<lparr>raw_ptr = None\<rparr>, size_v = 0, capacity = 0\<rparr>)"
  by code_simp

end
